theory Spec2Isabelle
  imports Main "HOL-Library.Word"
begin

unbundle bit_operations_syntax

section \<open>Data model\<close>

text \<open>
  The simulator's classes, from the second version of \<^verbatim>\<open>Cache.cpp\<close> (the one with FIFO
  replacement, the victim cache and \<^verbatim>\<open>fetch\<close>), \<^verbatim>\<open>MemoryManager.cpp\<close> and the
  \<^verbatim>\<open>CacheHierarchy\<close> class of the multi-level driver that owns the prefetcher.

  \<^verbatim>\<open>uint32_t\<close> is \<open>32 word\<close>, \<^verbatim>\<open>uint8_t\<close> is \<open>8 word\<close>: \<open>+\<close>, \<open>-\<close> and \<open>*\<close> wrap around as
  the unsigned C++ operators do. An exception is a value \<open>Inl e\<close> of the result type.
\<close>

type_synonym u8 = "8 word"
type_synonym u32 = "32 word"

datatype error =
    InvalidPolicy        \<comment> \<open>\<^verbatim>\<open>"Invalid cache policy"\<close>, thrown by the constructor\<close>
  | InconsistentID       \<comment> \<open>\<^verbatim>\<open>"Inconsistent ID in block {}"\<close>, thrown by \<^verbatim>\<open>getBlockId\<close>\<close>
  | DataNotInTopLevel    \<comment> \<open>\<^verbatim>\<open>"Error: data not in top level cache!"\<close>\<close>
  | IllegalOperation     \<comment> \<open>\<^verbatim>\<open>"Illegal memory access operation"\<close>\<close>
  | DivisionByZero       \<comment> \<open>\<^verbatim>\<open>%\<close> by a zero policy field (undefined in C++)\<close>
  | OutOfBounds          \<comment> \<open>a vector indexed past its end (undefined in C++)\<close>
  | NullPointer          \<comment> \<open>\<^verbatim>\<open>victimCache->\<close> on a null pointer (undefined in C++)\<close>
  | OutOfFuel            \<comment> \<open>the call-depth budget of the model is used up\<close>
  | ChainMismatch        \<comment> \<open>a call returned another number of lower caches (model only)\<close>

record policy =
  cacheSize :: u32
  blockSize :: u32
  blockNum :: u32
  associativity :: u32
  hitLatency :: u32
  missLatency :: u32

text \<open>
  \<^verbatim>\<open>Cache::Block\<close>. The fields \<^verbatim>\<open>id\<close> and \<^verbatim>\<open>size\<close> are \<open>id_blk\<close> and \<open>size_blk\<close> here
  (\<open>id\<close> and \<open>size\<close> are constants of HOL).
\<close>

record block =
  valid :: bool
  modified :: bool
  tag :: u32
  id_blk :: u32
  size_blk :: u32
  lastReference :: u32
  createdAt :: u32
  data :: "u8 list"

text \<open>
  \<^verbatim>\<open>Cache::Statistics\<close>. The header that declares the struct is not among the sources, so
  the integer types of the counters are parameters: \<open>'n\<close> for the four access counters and
  \<open>'c\<close> for the cycle count, any commutative ring with one (\<open>32 word\<close> and \<open>64 word\<close> for
  \<^verbatim>\<open>uint32_t\<close> and \<^verbatim>\<open>uint64_t\<close>). A latency, a \<^verbatim>\<open>uint32_t\<close>, is added to the
  cycle count through \<open>of_nat (unat l)\<close>, the integral conversion.
\<close>

record ('n, 'c) statistics =
  numRead :: 'n
  numWrite :: 'n
  numHit :: 'n
  numMiss :: 'n
  totalCycles :: 'c

text \<open>
  \<^verbatim>\<open>class Cache\<close>. The plain members are the record \<open>cache_state\<close>; the victim cache, a
  \<^verbatim>\<open>Cache\<close> that its parent owns, is the second component of the datatype. The pointer
  \<^verbatim>\<open>lowerCache\<close> is not a field: a method of a cache runs against the list of the caches
  below it (\<^verbatim>\<open>lowerCache\<close>, \<^verbatim>\<open>lowerCache->lowerCache\<close>, ...; \<open>[]\<close> is \<^verbatim>\<open>nullptr\<close>) and
  the memory, and \<^verbatim>\<open>setVictimCache\<close> gives the victim cache the parent's own
  \<^verbatim>\<open>lowerCache\<close> and \<^verbatim>\<open>memoryManager\<close>, so a victim cache runs against the same list
  and memory as its parent.
\<close>

record ('n, 'c) cache_state =
  blocks :: "block list"
  referenceCounter :: u32
  policy :: policy
  statistics :: "('n, 'c) statistics"
  enableFifo :: bool
  enableVictimCache :: bool

datatype ('n, 'c) cache =
  Cache (st: "('n, 'c) cache_state") (victimCache: "('n, 'c) cache option")

text \<open>
  \<^verbatim>\<open>MemoryManager::memory\<close>: 1024 first-level entries, each null or a table of 1024
  second-level entries, each null or a page of 4096 bytes.
\<close>

type_synonym page = "u32 \<Rightarrow> u8"
type_synonym memory = "u32 \<Rightarrow> (u32 \<Rightarrow> page option) option"

text \<open>What a method of a cache runs against: the caches below it and the memory.\<close>

type_synonym ('n, 'c) world = "('n, 'c) cache list \<times> memory"

section \<open>MemoryManager\<close>

definition MemoryManager :: memory where
  "MemoryManager = (\<lambda>i. None)"

definition getFirstEntryId :: "u32 \<Rightarrow> u32" where
  "getFirstEntryId addr = (drop_bit 22 addr) AND 0x3FF"

definition getSecondEntryId :: "u32 \<Rightarrow> u32" where
  "getSecondEntryId addr = (drop_bit 12 addr) AND 0x3FF"

definition getPageOffset :: "u32 \<Rightarrow> u32" where
  "getPageOffset addr = addr AND 0xFFF"

definition isAddrExist :: "memory \<Rightarrow> u32 \<Rightarrow> bool" where
  "isAddrExist m addr =
     (case m (getFirstEntryId addr) of
        None \<Rightarrow> False
      | Some t \<Rightarrow> (case t (getSecondEntryId addr) of None \<Rightarrow> False | Some p \<Rightarrow> True))"

definition isPageExist :: "memory \<Rightarrow> u32 \<Rightarrow> bool" where
  "isPageExist m addr = isAddrExist m addr"

text \<open>\<^verbatim>\<open>addPage\<close> returns the flag and the memory it leaves.\<close>

definition addPage :: "memory \<Rightarrow> u32 \<Rightarrow> bool \<times> memory" where
  "addPage m addr =
     (let i = getFirstEntryId addr;
          j = getSecondEntryId addr;
          t = (case m i of None \<Rightarrow> (\<lambda>j. None) | Some t \<Rightarrow> t)
      in case t j of
           None \<Rightarrow> (True, m(i := Some (t(j := Some (\<lambda>k. 0)))))
         | Some p \<Rightarrow> (False, m(i := Some t)))"

definition mem_setByte :: "memory \<Rightarrow> u32 \<Rightarrow> u8 \<Rightarrow> bool \<times> memory" where
  "mem_setByte m addr val =
     (case m (getFirstEntryId addr) of
        None \<Rightarrow> (False, m)
      | Some t \<Rightarrow>
          (case t (getSecondEntryId addr) of
             None \<Rightarrow> (False, m)
           | Some p \<Rightarrow>
               (True, m(getFirstEntryId addr :=
                  Some (t(getSecondEntryId addr := Some (p(getPageOffset addr := val))))))))"

text \<open>\<^verbatim>\<open>getByte\<close> returns \<^verbatim>\<open>false\<close>, the byte 0, for an address without a page.\<close>

definition mem_getByte :: "memory \<Rightarrow> u32 \<Rightarrow> u8" where
  "mem_getByte m addr =
     (case m (getFirstEntryId addr) of
        None \<Rightarrow> 0
      | Some t \<Rightarrow>
          (case t (getSecondEntryId addr) of
             None \<Rightarrow> 0
           | Some p \<Rightarrow> p (getPageOffset addr)))"

section \<open>Cache: policy, address decoding, construction\<close>

definition isPowerOfTwo :: "u32 \<Rightarrow> bool" where
  "isPowerOfTwo n = (n > 0 \<and> (n AND (n - 1)) = 0)"

text \<open>\<^verbatim>\<open>std::bit_width\<close>: the number of bits needed to write a number, 0 for 0.\<close>

fun bit_width :: "nat \<Rightarrow> nat" where
  "bit_width n = (if n = 0 then 0 else Suc (bit_width (n div 2)))"

declare bit_width.simps [simp del]

definition log2i :: "u32 \<Rightarrow> u32" where
  "log2i val = (if val = 0 then - 1 else of_nat (bit_width (unat val)) - 1)"

text \<open>
  \<^verbatim>\<open>isPolicyValid\<close> computes all five conditions before it looks at any of them; the two
  \<^verbatim>\<open>%\<close> are undefined for a zero divisor, which is the error \<open>DivisionByZero\<close> here.
\<close>

definition isPolicyValid :: "policy \<Rightarrow> error + bool" where
  "isPolicyValid p =
     (if blockSize p = 0 \<or> associativity p = 0 then Inl DivisionByZero
      else Inr (isPowerOfTwo (cacheSize p) \<and> isPowerOfTwo (blockSize p) \<and>
                cacheSize p mod blockSize p = 0 \<and>
                blockNum p * blockSize p = cacheSize p \<and>
                blockNum p mod associativity p = 0))"

text \<open>
  A shift is \<open>push_bit\<close> or \<open>drop_bit\<close> by the amount read as a number;
  \<open>blockNum / associativity\<close> is \<open>div\<close> on words (a constructed cache has a nonzero
  associativity).
\<close>

definition offsetBits :: "policy \<Rightarrow> u32" where
  "offsetBits p = log2i (blockSize p)"

definition idBits :: "policy \<Rightarrow> u32" where
  "idBits p = log2i (blockNum p div associativity p)"

definition getTag :: "policy \<Rightarrow> u32 \<Rightarrow> u32" where
  "getTag p addr =
     (let mask = push_bit (unat (32 - offsetBits p - idBits p)) 1 - 1
      in (drop_bit (unat (offsetBits p + idBits p)) addr) AND mask)"

definition getId :: "policy \<Rightarrow> u32 \<Rightarrow> u32" where
  "getId p addr =
     (let mask = push_bit (unat (idBits p)) 1 - 1
      in (drop_bit (unat (offsetBits p)) addr) AND mask)"

definition getOffset :: "policy \<Rightarrow> u32 \<Rightarrow> u32" where
  "getOffset p addr =
     (let bits = log2i (blockSize p); mask = push_bit (unat bits) 1 - 1
      in addr AND mask)"

definition getAddr :: "policy \<Rightarrow> block \<Rightarrow> u32" where
  "getAddr p b =
     (push_bit (unat (offsetBits p + idBits p)) (tag b)) OR
     (push_bit (unat (offsetBits p)) (id_blk b))"

definition initBlock :: "policy \<Rightarrow> u32 \<Rightarrow> block" where
  "initBlock p idx =
     \<lparr>valid = False, modified = False, tag = 0,
      id_blk = idx div associativity p, size_blk = blockSize p,
      lastReference = 0, createdAt = 0,
      data = replicate (unat (blockSize p)) 0\<rparr>"

definition zeroStatistics :: "('n::comm_ring_1, 'c::comm_ring_1) statistics" where
  "zeroStatistics = \<lparr>numRead = 0, numWrite = 0, numHit = 0, numMiss = 0, totalCycles = 0\<rparr>"

text \<open>The constructor \<^verbatim>\<open>Cache::Cache(manager, policy, lowerCache)\<close>.\<close>

definition newCache :: "policy \<Rightarrow> error + ('n::comm_ring_1, 'c::comm_ring_1) cache" where
  "newCache p =
     (case isPolicyValid p of
        Inl e \<Rightarrow> Inl e
      | Inr ok \<Rightarrow>
          if \<not> ok then Inl InvalidPolicy
          else Inr (Cache
            \<lparr>blocks = map (\<lambda>idx. initBlock p (of_nat idx)) [0 ..< unat (blockNum p)],
             referenceCounter = 0, policy = p, statistics = zeroStatistics,
             enableFifo = False, enableVictimCache = False\<rparr> None))"

section \<open>Cache: statistics and the victim cache\<close>

text \<open>
  The victim cache under the test \<^verbatim>\<open>enableVictimCache && victimCache != nullptr\<close>, which
  \<^verbatim>\<open>getStatistics\<close>, \<^verbatim>\<open>writeBlockToLowerLevel\<close> and the eviction make.
\<close>

definition enabledVictim :: "('n, 'c) cache \<Rightarrow> ('n, 'c) cache option" where
  "enabledVictim c = (if enableVictimCache (st c) then victimCache c else None)"

definition getStatistics :: "('n::comm_ring_1, 'c::comm_ring_1) cache \<Rightarrow> ('n, 'c) statistics" where
  "getStatistics c =
     (let stats = statistics (st c)
      in case enabledVictim c of
           Some v \<Rightarrow>
             stats\<lparr>numMiss := numMiss stats - numHit (statistics (st v)),
                    numHit := numHit stats + numHit (statistics (st v))\<rparr>
         | None \<Rightarrow> stats)"

definition victimCachePolicy :: policy where
  "victimCachePolicy =
     \<lparr>cacheSize = 8 * 1024, blockSize = 64, blockNum = 8 * 1024 div 64,
      associativity = 8 * 1024 div 64, hitLatency = 1, missLatency = 8\<rparr>"

definition setVictimCache ::
  "bool \<Rightarrow> ('n::comm_ring_1, 'c::comm_ring_1) cache \<Rightarrow> error + ('n, 'c) cache" where
  "setVictimCache enable c =
     (if enable
      then (case newCache victimCachePolicy of
              Inl e \<Rightarrow> Inl e
            | Inr v \<Rightarrow> Inr (Cache ((st c)\<lparr>enableVictimCache := True\<rparr>) (Some v)))
      else Inr (Cache ((st c)\<lparr>enableVictimCache := False\<rparr>) None))"

section \<open>Cache: lookup and replacement\<close>

text \<open>\<^verbatim>\<open>blocks[i]\<close> for an index of type \<^verbatim>\<open>uint32_t\<close>.\<close>

definition blockAt :: "block list \<Rightarrow> u32 \<Rightarrow> error + block" where
  "blockAt bs i = (if unat i < length bs then Inr (bs ! unat i) else Inl OutOfBounds)"

text \<open>
  A loop \<^verbatim>\<open>for (i = ...; i < end; ++i)\<close> over \<^verbatim>\<open>uint32_t\<close> stops: below \<open>end\<close> the
  increment does not wrap around.
\<close>

lemma word_succ_measure:
  fixes i e :: u32
  assumes "i < e"
  shows "unat (i + 1) = Suc (unat i)" and "unat e - unat (i + 1) < unat e - unat i"
proof -
  from assms have lt: "unat i < unat e"
    by (simp add: word_less_nat_alt)
  moreover have "unat e < 2 ^ 32"
    using unsigned_less [of e, where 'a = nat] by simp
  ultimately show "unat (i + 1) = Suc (unat i)"
    by (simp add: unat_word_ariths)
  with lt show "unat e - unat (i + 1) < unat e - unat i"
    by simp
qed

text \<open>
  The loop of \<^verbatim>\<open>getBlockId\<close> from the index \<open>i\<close>. The value \<open>- 1\<close> is the sentinel
  \<^verbatim>\<open>-1\<close> converted to \<^verbatim>\<open>uint32_t\<close>.
\<close>

function getBlockId_from :: "block list \<Rightarrow> u32 \<Rightarrow> u32 \<Rightarrow> u32 \<Rightarrow> u32 \<Rightarrow> error + u32" where
  "getBlockId_from bs tg idx i e =
     (if i < e
      then (case blockAt bs i of
              Inl err \<Rightarrow> Inl err
            | Inr b \<Rightarrow>
                if id_blk b \<noteq> idx then Inl InconsistentID
                else if valid b \<and> tag b = tg then Inr i
                else getBlockId_from bs tg idx (i + 1) e)
      else Inr (- 1))"
  by pat_completeness auto
termination
  by (relation "measure (\<lambda>(bs, tg, idx, i, e). unat e - unat i)")
     (simp_all add: word_succ_measure(1) word_less_nat_alt)

declare getBlockId_from.simps [simp del]

definition getBlockId :: "('n, 'c) cache \<Rightarrow> u32 \<Rightarrow> error + u32" where
  "getBlockId c addr =
     (let p = policy (st c); tg = getTag p addr; idx = getId p addr
      in getBlockId_from (blocks (st c)) tg idx
           (idx * associativity p) ((idx + 1) * associativity p))"

definition inCache :: "('n, 'c) cache \<Rightarrow> u32 \<Rightarrow> error + bool" where
  "inCache c addr =
     (case getBlockId c addr of Inl e \<Rightarrow> Inl e | Inr blockId \<Rightarrow> Inr (blockId \<noteq> - 1))"

text \<open>The first loop of \<^verbatim>\<open>getReplacementBlockId\<close>: the first invalid block, if any.\<close>

function firstInvalid_from :: "block list \<Rightarrow> u32 \<Rightarrow> u32 \<Rightarrow> error + u32 option" where
  "firstInvalid_from bs i e =
     (if i < e
      then (case blockAt bs i of
              Inl err \<Rightarrow> Inl err
            | Inr b \<Rightarrow> if \<not> valid b then Inr (Some i) else firstInvalid_from bs (i + 1) e)
      else Inr None)"
  by pat_completeness auto
termination
  by (relation "measure (\<lambda>(bs, i, e). unat e - unat i)")
     (simp_all add: word_succ_measure(1) word_less_nat_alt)

declare firstInvalid_from.simps [simp del]

text \<open>
  The two minimum scans of \<^verbatim>\<open>getReplacementBlockId\<close>, which differ in the field they
  compare (\<open>key\<close>) and in the index they start from: \<open>blockId\<close> is the best index so
  far and \<open>mn\<close> its key.
\<close>

function minScan ::
  "(block \<Rightarrow> u32) \<Rightarrow> block list \<Rightarrow> u32 \<Rightarrow> u32 \<Rightarrow> u32 \<Rightarrow> u32 \<Rightarrow> error + u32" where
  "minScan key bs i e blockId mn =
     (if i < e
      then (case blockAt bs i of
              Inl err \<Rightarrow> Inl err
            | Inr b \<Rightarrow>
                if key b < mn then minScan key bs (i + 1) e i (key b)
                else minScan key bs (i + 1) e blockId mn)
      else Inr blockId)"
  by pat_completeness auto
termination
  by (relation "measure (\<lambda>(key, bs, i, e, blockId, mn). unat e - unat i)")
     (simp_all add: word_succ_measure(1) word_less_nat_alt)

declare minScan.simps [simp del]

definition getReplacementBlockId :: "('n, 'c) cache \<Rightarrow> u32 \<Rightarrow> u32 \<Rightarrow> error + u32" where
  "getReplacementBlockId c begin end =
     (let bs = blocks (st c)
      in case firstInvalid_from bs begin end of
           Inl err \<Rightarrow> Inl err
         | Inr (Some i) \<Rightarrow> Inr i
         | Inr None \<Rightarrow>
             (case blockAt bs begin of
                Inl err \<Rightarrow> Inl err
              | Inr b0 \<Rightarrow>
                  if enableFifo (st c)
                  then minScan createdAt bs (begin + 1) end begin (createdAt b0)
                  else minScan lastReference bs begin end begin (lastReference b0)))"

section \<open>Cache: the accesses\<close>

text \<open>A loop \<^verbatim>\<open>for (uint32_t i = b; i < e; ++i) body\<close> over a state, stopped by an error.\<close>

function for_loop :: "u32 \<Rightarrow> u32 \<Rightarrow> (u32 \<Rightarrow> 's \<Rightarrow> error + 's) \<Rightarrow> 's \<Rightarrow> error + 's" where
  "for_loop i e body s =
     (if i < e
      then (case body i s of Inl err \<Rightarrow> Inl err | Inr s' \<Rightarrow> for_loop (i + 1) e body s')
      else Inr s)"
  by pat_completeness auto
termination
  by (relation "measure (\<lambda>(i, e, body, s). unat e - unat i)")
     (simp_all add: word_succ_measure(1) word_less_nat_alt)

declare for_loop.simps [simp del]

definition map_st ::
  "(('n, 'c) cache_state \<Rightarrow> ('n, 'c) cache_state) \<Rightarrow> ('n, 'c) cache \<Rightarrow> ('n, 'c) cache" where
  "map_st f c = Cache (f (st c)) (victimCache c)"

definition map_statistics ::
  "(('n, 'c) statistics \<Rightarrow> ('n, 'c) statistics) \<Rightarrow> ('n, 'c) cache \<Rightarrow> ('n, 'c) cache" where
  "map_statistics f c = map_st (\<lambda>s. s\<lparr>statistics := f (statistics s)\<rparr>) c"

text \<open>\<^verbatim>\<open>++statistics.numRead\<close> or \<^verbatim>\<open>++statistics.numWrite\<close>, by \<^verbatim>\<open>isRead\<close>.\<close>

definition countAccess ::
  "bool \<Rightarrow> ('n::comm_ring_1, 'c) statistics \<Rightarrow> ('n, 'c) statistics" where
  "countAccess isRead s =
     (if isRead then s\<lparr>numRead := numRead s + 1\<rparr> else s\<lparr>numWrite := numWrite s + 1\<rparr>)"

text \<open>\<^verbatim>\<open>++statistics.numHit; statistics.totalCycles += policy.hitLatency\<close>, and for a miss.\<close>

definition countHit ::
  "u32 \<Rightarrow> ('n::comm_ring_1, 'c::comm_ring_1) statistics \<Rightarrow> ('n, 'c) statistics" where
  "countHit latency s =
     s\<lparr>numHit := numHit s + 1, totalCycles := totalCycles s + of_nat (unat latency)\<rparr>"

definition countMiss ::
  "u32 \<Rightarrow> ('n::comm_ring_1, 'c::comm_ring_1) statistics \<Rightarrow> ('n, 'c) statistics" where
  "countMiss latency s =
     s\<lparr>numMiss := numMiss s + 1, totalCycles := totalCycles s + of_nat (unat latency)\<rparr>"

text \<open>The hit or miss that follows the lookup, in \<^verbatim>\<open>read\<close>, \<^verbatim>\<open>write\<close> and the two probes.\<close>

definition countLookup ::
  "bool \<Rightarrow> ('n::comm_ring_1, 'c::comm_ring_1) cache \<Rightarrow> ('n, 'c) cache" where
  "countLookup hit c =
     (if hit then map_statistics (countHit (hitLatency (policy (st c)))) c
      else map_statistics (countMiss (missLatency (policy (st c)))) c)"

text \<open>\<^verbatim>\<open>blocks[blockId] = f(blocks[blockId])\<close>.\<close>

definition updateBlock ::
  "u32 \<Rightarrow> (block \<Rightarrow> block) \<Rightarrow> ('n, 'c) cache \<Rightarrow> error + ('n, 'c) cache" where
  "updateBlock blockId f c =
     (if unat blockId < length (blocks (st c))
      then Inr (map_st (\<lambda>s. s\<lparr>blocks := (blocks s)[unat blockId := f (blocks s ! unat blockId)]\<rparr>) c)
      else Inl OutOfBounds)"

text \<open>\<^verbatim>\<open>block.data[k]\<close> and \<^verbatim>\<open>block.data[k] = val\<close>.\<close>

definition dataAt :: "block \<Rightarrow> u32 \<Rightarrow> error + u8" where
  "dataAt b k = (if unat k < length (data b) then Inr (data b ! unat k) else Inl OutOfBounds)"

definition setDataAt :: "u32 \<Rightarrow> u8 \<Rightarrow> block \<Rightarrow> error + block" where
  "setDataAt k val b =
     (if unat k < length (data b) then Inr (b\<lparr>data := (data b)[unat k := val]\<rparr>)
      else Inl OutOfBounds)"

text \<open>
  The end of both branches of \<^verbatim>\<open>getByte\<close>:
  \<^verbatim>\<open>blocks[blockId].lastReference = referenceCounter; return blocks[blockId].data[offset]\<close>.
\<close>

definition readBlockByte ::
  "u32 \<Rightarrow> u32 \<Rightarrow> ('n, 'c) cache \<Rightarrow> error + (u8 \<times> ('n, 'c) cache)" where
  "readBlockByte blockId addr c =
     (case updateBlock blockId (\<lambda>b. b\<lparr>lastReference := referenceCounter (st c)\<rparr>) c of
        Inl e \<Rightarrow> Inl e
      | Inr c' \<Rightarrow>
          (case blockAt (blocks (st c')) blockId of
             Inl e \<Rightarrow> Inl e
           | Inr b \<Rightarrow>
               (case dataAt b (getOffset (policy (st c)) addr) of
                  Inl e \<Rightarrow> Inl e
                | Inr val \<Rightarrow> Inr (val, c'))))"

text \<open>
  The end of both branches of \<^verbatim>\<open>setByte\<close>: the block becomes modified, its
  \<^verbatim>\<open>lastReference\<close> the reference counter, and the byte is stored.
\<close>

definition writeBlockByte ::
  "u32 \<Rightarrow> u32 \<Rightarrow> u8 \<Rightarrow> ('n, 'c) cache \<Rightarrow> error + ('n, 'c) cache" where
  "writeBlockByte blockId addr val c =
     (case updateBlock blockId
             (\<lambda>b. b\<lparr>modified := True, lastReference := referenceCounter (st c)\<rparr>) c of
        Inl e \<Rightarrow> Inl e
      | Inr c' \<Rightarrow>
          (case blockAt (blocks (st c')) blockId of
             Inl e \<Rightarrow> Inl e
           | Inr b \<Rightarrow>
               (case setDataAt (getOffset (policy (st c)) addr) val b of
                  Inl e \<Rightarrow> Inl e
                | Inr b' \<Rightarrow> updateBlock blockId (\<lambda>b. b') c')))"

definition setInvalid :: "u32 \<Rightarrow> ('n, 'c) cache \<Rightarrow> error + ('n, 'c) cache" where
  "setInvalid addr c =
     (case getBlockId c addr of
        Inl e \<Rightarrow> Inl e
      | Inr blockId \<Rightarrow>
          if blockId \<noteq> - 1 then updateBlock blockId (\<lambda>b. b\<lparr>valid := False\<rparr>) c
          else Inr c)"

text \<open>
  The methods call each other, and those of the victim cache and of the lower cache. Each
  body below takes the methods it calls as arguments (\<open>load\<close> for
  \<^verbatim>\<open>loadBlockFromLowerLevel\<close>, \<open>getB\<close> and \<open>setB\<close> for \<^verbatim>\<open>getByte\<close> and \<^verbatim>\<open>setByte\<close>,
  \<open>writeBlock\<close> for \<^verbatim>\<open>writeBlockToLowerLevel\<close>); the recursion that ties them together
  follows the bodies.
\<close>

type_synonym ('n, 'c) getByte_t =
  "u32 \<Rightarrow> ('n, 'c) cache \<Rightarrow> ('n, 'c) world \<Rightarrow> error + (u8 \<times> ('n, 'c) cache \<times> ('n, 'c) world)"
type_synonym ('n, 'c) setByte_t =
  "u32 \<Rightarrow> u8 \<Rightarrow> ('n, 'c) cache \<Rightarrow> ('n, 'c) world \<Rightarrow> error + (('n, 'c) cache \<times> ('n, 'c) world)"
type_synonym ('n, 'c) load_t =
  "u32 \<Rightarrow> bool \<Rightarrow> ('n, 'c) cache \<Rightarrow> ('n, 'c) world \<Rightarrow> error + (('n, 'c) cache \<times> ('n, 'c) world)"
type_synonym ('n, 'c) writeBlock_t =
  "block \<Rightarrow> ('n, 'c) cache \<Rightarrow> ('n, 'c) world \<Rightarrow> error + (('n, 'c) cache \<times> ('n, 'c) world)"

definition Cache_getByte :: "('n, 'c) load_t \<Rightarrow> ('n, 'c) getByte_t" where
  "Cache_getByte load addr c w =
     (let c1 = map_st (\<lambda>s. s\<lparr>referenceCounter := referenceCounter s + 1\<rparr>) c
      in case getBlockId c1 addr of
           Inl e \<Rightarrow> Inl e
         | Inr blockId \<Rightarrow>
             if blockId \<noteq> - 1
             then (case readBlockByte blockId addr c1 of
                     Inl e \<Rightarrow> Inl e
                   | Inr (val, c2) \<Rightarrow> Inr (val, c2, w))
             else (case load addr True c1 w of
                     Inl e \<Rightarrow> Inl e
                   | Inr (c2, w2) \<Rightarrow>
                       (case getBlockId c2 addr of
                          Inl e \<Rightarrow> Inl e
                        | Inr blockId \<Rightarrow>
                            if blockId \<noteq> - 1
                            then (case readBlockByte blockId addr c2 of
                                    Inl e \<Rightarrow> Inl e
                                  | Inr (val, c3) \<Rightarrow> Inr (val, c3, w2))
                            else Inl DataNotInTopLevel)))"

definition Cache_setByte :: "('n, 'c) load_t \<Rightarrow> ('n, 'c) setByte_t" where
  "Cache_setByte load addr val c w =
     (let c1 = map_st (\<lambda>s. s\<lparr>referenceCounter := referenceCounter s + 1\<rparr>) c
      in case getBlockId c1 addr of
           Inl e \<Rightarrow> Inl e
         | Inr blockId \<Rightarrow>
             if blockId \<noteq> - 1
             then (case writeBlockByte blockId addr val c1 of
                     Inl e \<Rightarrow> Inl e
                   | Inr c2 \<Rightarrow> Inr (c2, w))
             else (case load addr False c1 w of
                     Inl e \<Rightarrow> Inl e
                   | Inr (c2, w2) \<Rightarrow>
                       (case getBlockId c2 addr of
                          Inl e \<Rightarrow> Inl e
                        | Inr blockId \<Rightarrow>
                            if blockId \<noteq> - 1
                            then (case writeBlockByte blockId addr val c2 of
                                    Inl e \<Rightarrow> Inl e
                                  | Inr c3 \<Rightarrow> Inr (c3, w2))
                            else Inl DataNotInTopLevel)))"

text \<open>
  \<^verbatim>\<open>for (i = blockAddrBegin; i < blockAddrBegin + blockSize; ++i)
     newBlock.data[i - blockAddrBegin] = x->getByte(i)\<close>
  for a cache \<open>x\<close> (the victim cache or the lower cache) that runs against \<open>w\<close>.
\<close>

definition copyBlockFrom ::
  "('n, 'c) getByte_t \<Rightarrow> u32 \<Rightarrow> u32 \<Rightarrow> block \<Rightarrow> ('n, 'c) cache \<Rightarrow> ('n, 'c) world \<Rightarrow>
   error + (block \<times> ('n, 'c) cache \<times> ('n, 'c) world)" where
  "copyBlockFrom getB blockAddrBegin blockSz newBlock x w =
     for_loop blockAddrBegin (blockAddrBegin + blockSz)
       (\<lambda>i (b, x, w).
          case getB i x w of
            Inl e \<Rightarrow> Inl e
          | Inr (val, x', w') \<Rightarrow>
              (case setDataAt (i - blockAddrBegin) val b of
                 Inl e \<Rightarrow> Inl e
               | Inr b' \<Rightarrow> Inr (b', x', w')))
       (newBlock, x, w)"

text \<open>The same loop over \<^verbatim>\<open>memoryManager->getByte(i)\<close>.\<close>

definition copyBlockFromMemory :: "memory \<Rightarrow> u32 \<Rightarrow> u32 \<Rightarrow> block \<Rightarrow> error + block" where
  "copyBlockFromMemory m blockAddrBegin blockSz newBlock =
     for_loop blockAddrBegin (blockAddrBegin + blockSz)
       (\<lambda>i b. setDataAt (i - blockAddrBegin) (mem_getByte m i) b)
       newBlock"

text \<open>
  \<^verbatim>\<open>for (i = 0; i < block.size; ++i) x->setByte(addrBegin + i, block.data[i])\<close>
  for a cache \<open>x\<close> that runs against \<open>w\<close>.
\<close>

definition storeBlockInto ::
  "('n, 'c) setByte_t \<Rightarrow> u32 \<Rightarrow> block \<Rightarrow> ('n, 'c) cache \<Rightarrow> ('n, 'c) world \<Rightarrow>
   error + (('n, 'c) cache \<times> ('n, 'c) world)" where
  "storeBlockInto setB addrBegin b x w =
     for_loop 0 (size_blk b)
       (\<lambda>i (x, w).
          case dataAt b i of
            Inl e \<Rightarrow> Inl e
          | Inr val \<Rightarrow> setB (addrBegin + i) val x w)
       (x, w)"

text \<open>The same loop over \<^verbatim>\<open>memoryManager->setByte(addrBegin + i, block.data[i])\<close>.\<close>

definition storeBlockIntoMemory :: "u32 \<Rightarrow> block \<Rightarrow> memory \<Rightarrow> error + memory" where
  "storeBlockIntoMemory addrBegin b m =
     for_loop 0 (size_blk b)
       (\<lambda>i m.
          case dataAt b i of
            Inl e \<Rightarrow> Inl e
          | Inr val \<Rightarrow> Inr (snd (mem_setByte m (addrBegin + i) val)))
       m"

definition Cache_writeBlockToLowerLevel :: "('n, 'c) setByte_t \<Rightarrow> ('n, 'c) writeBlock_t" where
  "Cache_writeBlockToLowerLevel setB b c w =
     (let addrBegin = getAddr (policy (st c)) b
      in case enabledVictim c of
           Some v \<Rightarrow>
             (case storeBlockInto setB addrBegin b v w of
                Inl e \<Rightarrow> Inl e
              | Inr (v', w') \<Rightarrow> Inr (Cache (st c) (Some v'), w'))
         | None \<Rightarrow>
             (case w of
                (l # ls, m) \<Rightarrow>
                  (case storeBlockInto setB addrBegin b l (ls, m) of
                     Inl e \<Rightarrow> Inl e
                   | Inr (l', ls', m') \<Rightarrow> Inr (c, l' # ls', m'))
              | ([], m) \<Rightarrow>
                  (case storeBlockIntoMemory addrBegin b m of
                     Inl e \<Rightarrow> Inl e
                   | Inr m' \<Rightarrow> Inr (c, [], m'))))"

text \<open>
  \<^verbatim>\<open>loadBlockFromLowerLevel\<close>, first part: \<^verbatim>\<open>if (enableVictimCache) { ... }\<close>. The result
  is \<^verbatim>\<open>readFromVictimCache\<close>, the new block, this cache and what it runs against.
\<close>

definition probeVictimCache ::
  "('n::comm_ring_1, 'c::comm_ring_1) getByte_t \<Rightarrow> u32 \<Rightarrow> bool \<Rightarrow> block \<Rightarrow>
   ('n, 'c) cache \<Rightarrow> ('n, 'c) world \<Rightarrow>
   error + (bool \<times> block \<times> ('n, 'c) cache \<times> ('n, 'c) world)" where
  "probeVictimCache getB blockAddrBegin isRead newBlock c w =
     (if enableVictimCache (st c)
      then (case victimCache c of
              None \<Rightarrow> Inl NullPointer
            | Some v \<Rightarrow>
                (let v1 = map_statistics (countAccess isRead) v
                 in case inCache v1 blockAddrBegin of
                      Inl e \<Rightarrow> Inl e
                    | Inr hit \<Rightarrow>
                        if hit
                        then (case copyBlockFrom getB blockAddrBegin (blockSize (policy (st c)))
                                     newBlock (countLookup True v1) w of
                                Inl e \<Rightarrow> Inl e
                              | Inr (newBlock', v2, w') \<Rightarrow>
                                  (case setInvalid blockAddrBegin v2 of
                                     Inl e \<Rightarrow> Inl e
                                   | Inr v3 \<Rightarrow>
                                       Inr (True, newBlock', Cache (st c) (Some v3), w')))
                        else Inr (False, newBlock,
                                  Cache (st c) (Some (countLookup False v1)), w)))
      else Inr (False, newBlock, c, w))"

text \<open>
  Second part, the body of \<^verbatim>\<open>if (!readFromVictimCache) { ... }\<close>: the probe of the lower
  cache, its own load on a miss, and the copy of the bytes.
\<close>

definition fetchFromLowerLevel ::
  "('n::comm_ring_1, 'c::comm_ring_1) getByte_t \<Rightarrow> ('n, 'c) load_t \<Rightarrow> u32 \<Rightarrow> bool \<Rightarrow>
   u32 \<Rightarrow> block \<Rightarrow> ('n, 'c) world \<Rightarrow> error + (block \<times> ('n, 'c) world)" where
  "fetchFromLowerLevel getB load blockAddrBegin isRead blockSz newBlock w =
     (case w of
        (l # ls, m) \<Rightarrow>
          (let l1 = map_statistics (countAccess isRead) l
           in case inCache l1 blockAddrBegin of
                Inl e \<Rightarrow> Inl e
              | Inr hit \<Rightarrow>
                  (case (if hit then Inr (countLookup True l1, ls, m)
                         else load blockAddrBegin isRead (countLookup False l1) (ls, m)) of
                     Inl e \<Rightarrow> Inl e
                   | Inr (l2, w2) \<Rightarrow>
                       (case copyBlockFrom getB blockAddrBegin blockSz newBlock l2 w2 of
                          Inl e \<Rightarrow> Inl e
                        | Inr (newBlock', l3, ls3, m3) \<Rightarrow> Inr (newBlock', l3 # ls3, m3))))
      | ([], m) \<Rightarrow>
          (case copyBlockFromMemory m blockAddrBegin blockSz newBlock of
             Inl e \<Rightarrow> Inl e
           | Inr newBlock' \<Rightarrow> Inr (newBlock', [], m)))"

text \<open>Third part, \<^verbatim>\<open>if (replaceBlock.valid) { ... }\<close>: the block that leaves the cache.\<close>

definition evictBlock ::
  "('n::comm_ring_1, 'c::comm_ring_1) setByte_t \<Rightarrow> ('n, 'c) writeBlock_t \<Rightarrow> block \<Rightarrow>
   ('n, 'c) cache \<Rightarrow> ('n, 'c) world \<Rightarrow> error + (('n, 'c) cache \<times> ('n, 'c) world)" where
  "evictBlock setB writeBlock replaceBlock c w =
     (if valid replaceBlock
      then (if modified replaceBlock
            then (case writeBlock replaceBlock c w of
                    Inl e \<Rightarrow> Inl e
                  | Inr (c', w') \<Rightarrow>
                      Inr (map_statistics
                             (\<lambda>s. s\<lparr>totalCycles := totalCycles s +
                                      of_nat (unat (missLatency (policy (st c))))\<rparr>) c', w'))
            else (case enabledVictim c of
                    Some v \<Rightarrow>
                      (case storeBlockInto setB (getAddr (policy (st c)) replaceBlock)
                              replaceBlock v w of
                         Inl e \<Rightarrow> Inl e
                       | Inr (v', w') \<Rightarrow> Inr (Cache (st c) (Some v'), w'))
                  | None \<Rightarrow> Inr (c, w)))
      else Inr (c, w))"

definition Cache_loadBlockFromLowerLevel ::
  "('n::comm_ring_1, 'c::comm_ring_1) getByte_t \<Rightarrow> ('n, 'c) setByte_t \<Rightarrow> ('n, 'c) load_t \<Rightarrow>
   ('n, 'c) writeBlock_t \<Rightarrow> ('n, 'c) load_t" where
  "Cache_loadBlockFromLowerLevel getB setB load writeBlock addr isRead c w =
     (let p = policy (st c);
          blockSz = blockSize p;
          newBlock = \<lparr>valid = True, modified = False, tag = getTag p addr,
                      id_blk = getId p addr, size_blk = blockSz,
                      lastReference = referenceCounter (st c),
                      createdAt = referenceCounter (st c),
                      data = replicate (unat blockSz) 0\<rparr>;
          bits = log2i blockSz;
          mask = NOT (push_bit (unat bits) 1 - 1);
          blockAddrBegin = addr AND mask;
          idx = getId p addr;
          blockIdBegin = idx * associativity p;
          blockIdEnd = (idx + 1) * associativity p
      in case getReplacementBlockId c blockIdBegin blockIdEnd of
           Inl e \<Rightarrow> Inl e
         | Inr replacedBlockIdx \<Rightarrow>
             (case blockAt (blocks (st c)) replacedBlockIdx of
                Inl e \<Rightarrow> Inl e
              | Inr replaceBlock \<Rightarrow>
                  (case probeVictimCache getB blockAddrBegin isRead newBlock c w of
                     Inl e \<Rightarrow> Inl e
                   | Inr (readFromVictimCache, newBlock1, c1, w1) \<Rightarrow>
                       (case (if \<not> readFromVictimCache
                              then fetchFromLowerLevel getB load blockAddrBegin isRead
                                     blockSz newBlock1 w1
                              else Inr (newBlock1, w1)) of
                          Inl e \<Rightarrow> Inl e
                        | Inr (newBlock2, w2) \<Rightarrow>
                            (case evictBlock setB writeBlock replaceBlock c1 w2 of
                               Inl e \<Rightarrow> Inl e
                             | Inr (c3, w3) \<Rightarrow>
                                 (case updateBlock replacedBlockIdx (\<lambda>b. newBlock2) c3 of
                                    Inl e \<Rightarrow> Inl e
                                  | Inr c4 \<Rightarrow> Inr (c4, w3)))))))"

text \<open>
  The recursion. A call chain goes down the hierarchy (into the victim cache, into the
  lower cache) and is as long as the hierarchy is deep; the first argument bounds its
  length, and a chain that would be longer is the error \<open>OutOfFuel\<close>.
\<close>

fun getByte :: "nat \<Rightarrow> ('n::comm_ring_1, 'c::comm_ring_1) getByte_t"
  and setByte :: "nat \<Rightarrow> ('n, 'c) setByte_t"
  and loadBlockFromLowerLevel :: "nat \<Rightarrow> ('n, 'c) load_t"
  and writeBlockToLowerLevel :: "nat \<Rightarrow> ('n, 'c) writeBlock_t" where
  "getByte 0 = (\<lambda>addr c w. Inl OutOfFuel)"
| "getByte (Suc n) = Cache_getByte (loadBlockFromLowerLevel n)"
| "setByte 0 = (\<lambda>addr val c w. Inl OutOfFuel)"
| "setByte (Suc n) = Cache_setByte (loadBlockFromLowerLevel n)"
| "loadBlockFromLowerLevel 0 = (\<lambda>addr isRead c w. Inl OutOfFuel)"
| "loadBlockFromLowerLevel (Suc n) =
     Cache_loadBlockFromLowerLevel (getByte n) (setByte n) (loadBlockFromLowerLevel n)
       (writeBlockToLowerLevel n)"
| "writeBlockToLowerLevel 0 = (\<lambda>b c w. Inl OutOfFuel)"
| "writeBlockToLowerLevel (Suc n) = Cache_writeBlockToLowerLevel (setByte n)"

definition fetch ::
  "nat \<Rightarrow> u32 \<Rightarrow> ('n::comm_ring_1, 'c::comm_ring_1) cache \<Rightarrow> ('n, 'c) world \<Rightarrow>
   error + (('n, 'c) cache \<times> ('n, 'c) world)" where
  "fetch n addr c w =
     (case getBlockId c addr of
        Inl e \<Rightarrow> Inl e
      | Inr blockId \<Rightarrow>
          if blockId = - 1 then loadBlockFromLowerLevel n addr True c w else Inr (c, w))"

definition read ::
  "nat \<Rightarrow> u32 \<Rightarrow> ('n::comm_ring_1, 'c::comm_ring_1) cache \<Rightarrow> ('n, 'c) world \<Rightarrow>
   error + (u8 \<times> ('n, 'c) cache \<times> ('n, 'c) world)" where
  "read n addr c w =
     (let c1 = map_statistics (\<lambda>s. s\<lparr>numRead := numRead s + 1\<rparr>) c
      in case inCache c1 addr of
           Inl e \<Rightarrow> Inl e
         | Inr hit \<Rightarrow> getByte n addr (countLookup hit c1) w)"

text \<open>\<^verbatim>\<open>Cache::write\<close> (\<open>write\<close> is a keyword of Isabelle).\<close>

definition write_c ::
  "nat \<Rightarrow> u32 \<Rightarrow> u8 \<Rightarrow> ('n::comm_ring_1, 'c::comm_ring_1) cache \<Rightarrow> ('n, 'c) world \<Rightarrow>
   error + (('n, 'c) cache \<times> ('n, 'c) world)" where
  "write_c n addr val c w =
     (let c1 = map_statistics (\<lambda>s. s\<lparr>numWrite := numWrite s + 1\<rparr>) c
      in case inCache c1 addr of
           Inl e \<Rightarrow> Inl e
         | Inr hit \<Rightarrow> setByte n addr val (countLookup hit c1) w)"

section \<open>The hierarchy and the prefetcher\<close>

text \<open>\<^verbatim>\<open>MultiLevelCacheConfig::L1\<close>, \<^verbatim>\<open>L2\<close> and \<^verbatim>\<open>L3\<close>.\<close>

definition L1 :: policy where
  "L1 = \<lparr>cacheSize = 16 * 1024, blockSize = 64, blockNum = 16 * 1024 div 64,
          associativity = 1, hitLatency = 1, missLatency = 8\<rparr>"

definition L2 :: policy where
  "L2 = \<lparr>cacheSize = 128 * 1024, blockSize = 64, blockNum = 128 * 1024 div 64,
          associativity = 8, hitLatency = 8, missLatency = 20\<rparr>"

definition L3 :: policy where
  "L3 = \<lparr>cacheSize = 2048 * 1024, blockSize = 64, blockNum = 2048 * 1024 div 64,
          associativity = 16, hitLatency = 20, missLatency = 100\<rparr>"

text \<open>
  \<^verbatim>\<open>int32_t stride\<close> is the 32 bits of the two's complement number (\<open>sint\<close> reads them
  as the signed value); the code compares strides for equality and adds one to an address.
\<close>

record PrefetchStatistics =
  isPrefetching :: bool
  stride :: u32
  sameStrideCount :: u32
  diffStrideCount :: u32
  lastAccessAddress :: u32

text \<open>
  \<^verbatim>\<open>class CacheHierarchy\<close>. Its own two flags \<^verbatim>\<open>enableFifo\<close> and
  \<^verbatim>\<open>enableVictimCache\<close> are \<open>enableFifo_h\<close> and \<open>enableVictimCache_h\<close> here.
\<close>

record ('n, 'c) CacheHierarchy =
  memoryManager :: memory
  l3Cache :: "('n, 'c) cache"
  l2Cache :: "('n, 'c) cache"
  l1Cache :: "('n, 'c) cache"
  enablePrefetch :: bool
  enableFifo_h :: bool
  enableVictimCache_h :: bool
  prefetchStatistics :: PrefetchStatistics

text \<open>
  The constructor: the three caches over one memory, \<^verbatim>\<open>l3Cache\<close> below \<^verbatim>\<open>l2Cache\<close>
  below \<^verbatim>\<open>l1Cache\<close>. It stores the three flags and has an empty body.
\<close>

definition newCacheHierarchy ::
  "bool \<Rightarrow> bool \<Rightarrow> bool \<Rightarrow> error + ('n::comm_ring_1, 'c::comm_ring_1) CacheHierarchy" where
  "newCacheHierarchy prefetch fifo victim =
     (case newCache L3 of
        Inl e \<Rightarrow> Inl e
      | Inr c3 \<Rightarrow>
          (case newCache L2 of
             Inl e \<Rightarrow> Inl e
           | Inr c2 \<Rightarrow>
               (case newCache L1 of
                  Inl e \<Rightarrow> Inl e
                | Inr c1 \<Rightarrow>
                    Inr \<lparr>memoryManager = MemoryManager, l3Cache = c3, l2Cache = c2,
                         l1Cache = c1, enablePrefetch = prefetch, enableFifo_h = fifo,
                         enableVictimCache_h = victim,
                         prefetchStatistics =
                           \<lparr>isPrefetching = False, stride = 0, sameStrideCount = 0,
                            diffStrideCount = 0, lastAccessAddress = 0\<rparr>\<rparr>)))"

text \<open>\<^verbatim>\<open>if (!memoryManager.isPageExist(addr)) memoryManager.addPage(addr)\<close>.\<close>

definition ensurePage :: "memory \<Rightarrow> u32 \<Rightarrow> memory" where
  "ensurePage m addr = (if \<not> isPageExist m addr then snd (addPage m addr) else m)"

text \<open>
  The stride detector of \<^verbatim>\<open>processMemoryAccess\<close>, from the computation of
  \<^verbatim>\<open>currentStride\<close> to the assignment of \<^verbatim>\<open>lastAccessAddress\<close>. The difference is taken
  in \<^verbatim>\<open>int64_t\<close>, where it is exact, and converted to \<^verbatim>\<open>int32_t\<close>.
\<close>

definition currentStride :: "PrefetchStatistics \<Rightarrow> u32 \<Rightarrow> u32" where
  "currentStride ps addr = word_of_int (uint addr - uint (lastAccessAddress ps))"

definition countStride :: "PrefetchStatistics \<Rightarrow> u32 \<Rightarrow> PrefetchStatistics" where
  "countStride ps addr =
     (if currentStride ps addr = stride ps
      then ps\<lparr>sameStrideCount := sameStrideCount ps + 1, diffStrideCount := 0\<rparr>
      else ps\<lparr>diffStrideCount := diffStrideCount ps + 1, sameStrideCount := 0,
              stride := currentStride ps addr\<rparr>)"

definition updatePrefetchStatistics :: "PrefetchStatistics \<Rightarrow> u32 \<Rightarrow> PrefetchStatistics" where
  "updatePrefetchStatistics ps addr =
     (let ps1 = countStride ps addr;
          ps2 = (if sameStrideCount ps1 > 3 then ps1\<lparr>isPrefetching := True\<rparr> else ps1);
          ps3 = (if diffStrideCount ps2 > 3 then ps2\<lparr>isPrefetching := False\<rparr> else ps2)
      in ps3\<lparr>lastAccessAddress := addr\<rparr>)"

text \<open>
  What \<^verbatim>\<open>l1Cache\<close> runs against, and the hierarchy after a call of one of its methods.
  \<^verbatim>\<open>addr + prefetchStatistics.stride\<close> is computed in \<^verbatim>\<open>uint32_t\<close>.
\<close>

definition l1World :: "('n, 'c) CacheHierarchy \<Rightarrow> ('n, 'c) world" where
  "l1World h = ([l2Cache h, l3Cache h], memoryManager h)"

definition afterL1 ::
  "('n, 'c) CacheHierarchy \<Rightarrow> ('n, 'c) cache \<times> ('n, 'c) world \<Rightarrow>
   error + ('n, 'c) CacheHierarchy" where
  "afterL1 h r =
     (case r of
        (c1, [c2, c3], m) \<Rightarrow>
          Inr (h\<lparr>memoryManager := m, l3Cache := c3, l2Cache := c2, l1Cache := c1\<rparr>)
      | _ \<Rightarrow> Inl ChainMismatch)"

definition prefetchAddr :: "PrefetchStatistics \<Rightarrow> u32 \<Rightarrow> u32" where
  "prefetchAddr ps addr = addr + stride ps"

text \<open>The block \<^verbatim>\<open>if (enablePrefetch) { ... }\<close> of \<^verbatim>\<open>processMemoryAccess\<close>.\<close>

definition prefetchStep ::
  "nat \<Rightarrow> u32 \<Rightarrow> ('n::comm_ring_1, 'c::comm_ring_1) CacheHierarchy \<Rightarrow>
   error + ('n, 'c) CacheHierarchy" where
  "prefetchStep n addr h =
     (case (if isPrefetching (prefetchStatistics h)
            then (let target = prefetchAddr (prefetchStatistics h) addr;
                      h1 = h\<lparr>memoryManager := ensurePage (memoryManager h) target\<rparr>
                  in case fetch n target (l1Cache h1) (l1World h1) of
                       Inl e \<Rightarrow> Inl e
                     | Inr r \<Rightarrow> afterL1 h1 r)
            else Inr h) of
        Inl e \<Rightarrow> Inl e
      | Inr h2 \<Rightarrow>
          Inr (h2\<lparr>prefetchStatistics :=
                     updatePrefetchStatistics (prefetchStatistics h2) addr\<rparr>))"

text \<open>The \<^verbatim>\<open>switch (operation)\<close> of \<^verbatim>\<open>processMemoryAccess\<close>.\<close>

definition dispatchAccess ::
  "nat \<Rightarrow> char \<Rightarrow> u32 \<Rightarrow> ('n::comm_ring_1, 'c::comm_ring_1) CacheHierarchy \<Rightarrow>
   error + ('n, 'c) CacheHierarchy" where
  "dispatchAccess n operation addr h =
     (if operation = CHR ''r''
      then (case read n addr (l1Cache h) (l1World h) of
              Inl e \<Rightarrow> Inl e
            | Inr (val, r) \<Rightarrow> afterL1 h r)
      else if operation = CHR ''w''
      then (case write_c n addr 0 (l1Cache h) (l1World h) of
              Inl e \<Rightarrow> Inl e
            | Inr r \<Rightarrow> afterL1 h r)
      else Inl IllegalOperation)"

definition processMemoryAccess ::
  "nat \<Rightarrow> char \<Rightarrow> u32 \<Rightarrow> ('n::comm_ring_1, 'c::comm_ring_1) CacheHierarchy \<Rightarrow>
   error + ('n, 'c) CacheHierarchy" where
  "processMemoryAccess n operation addr h =
     (let h1 = h\<lparr>memoryManager := ensurePage (memoryManager h) addr\<rparr>
      in case (if enablePrefetch h1 then prefetchStep n addr h1 else Inr h1) of
           Inl e \<Rightarrow> Inl e
         | Inr h2 \<Rightarrow> dispatchAccess n operation addr h2)"

text \<open>
  The loop of \<^verbatim>\<open>main\<close> over the records of the trace file, each an operation character
  and an address.
\<close>

fun processTrace ::
  "nat \<Rightarrow> (char \<times> u32) list \<Rightarrow> ('n::comm_ring_1, 'c::comm_ring_1) CacheHierarchy \<Rightarrow>
   error + ('n, 'c) CacheHierarchy" where
  "processTrace n [] h = Inr h"
| "processTrace n ((operation, addr) # trace) h =
     (case processMemoryAccess n operation addr h of
        Inl e \<Rightarrow> Inl e
      | Inr h' \<Rightarrow> processTrace n trace h')"

section \<open>Invariants, contracts and example states\<close>

text \<open>
  The choice as the specification words it, over the slots \<open>b\<close> to \<open>e - 1\<close> of a list of
  blocks: \<open>lowestInvalid\<close> is "the lowest-indexed invalid slot", \<open>lowestMinimum key\<close> is
  "the slot with minimum \<open>key\<close>, ties broken by lowest index".
\<close>

definition lowestInvalid :: "block list \<Rightarrow> nat \<Rightarrow> nat \<Rightarrow> nat \<Rightarrow> bool" where
  "lowestInvalid bs b e r =
     (r \<in> {b..<e} \<and> \<not> valid (bs ! r) \<and> (\<forall>j\<in>{b..<r}. valid (bs ! j)))"

definition lowestMinimum :: "(block \<Rightarrow> u32) \<Rightarrow> block list \<Rightarrow> nat \<Rightarrow> nat \<Rightarrow> nat \<Rightarrow> bool" where
  "lowestMinimum key bs b e r =
     (r \<in> {b..<e} \<and> (\<forall>j\<in>{b..<e}. key (bs ! r) \<le> key (bs ! j)) \<and>
      (\<forall>j\<in>{b..<r}. key (bs ! r) \<noteq> key (bs ! j)))"

definition chooseVictim_spec :: "('n, 'c) cache \<Rightarrow> nat \<Rightarrow> nat \<Rightarrow> nat \<Rightarrow> bool" where
  "chooseVictim_spec c b e r =
     (let bs = blocks (st c)
      in if \<exists>i\<in>{b..<e}. \<not> valid (bs ! i) then lowestInvalid bs b e r
         else if enableFifo (st c) then lowestMinimum createdAt bs b e r
         else lowestMinimum lastReference bs b e r)"

definition lruExample :: "(32 word, 64 word) cache" where
  "lruExample =
     Cache \<lparr>blocks =
              [\<lparr>valid = True, modified = False, tag = 0, id_blk = 0, size_blk = 2,
                lastReference = 7, createdAt = 1, data = [0, 0]\<rparr>,
               \<lparr>valid = True, modified = False, tag = 1, id_blk = 0, size_blk = 2,
                lastReference = 5, createdAt = 2, data = [0, 0]\<rparr>,
               \<lparr>valid = True, modified = False, tag = 2, id_blk = 0, size_blk = 2,
                lastReference = 5, createdAt = 3, data = [0, 0]\<rparr>,
               \<lparr>valid = True, modified = True, tag = 3, id_blk = 0, size_blk = 2,
                lastReference = 9, createdAt = 4, data = [0, 0]\<rparr>],
            referenceCounter = 9,
            policy = \<lparr>cacheSize = 8, blockSize = 2, blockNum = 4, associativity = 4,
                      hitLatency = 1, missLatency = 8\<rparr>,
            statistics = zeroStatistics, enableFifo = False, enableVictimCache = False\<rparr> None"

definition tinyPolicy :: policy where
  "tinyPolicy = \<lparr>cacheSize = 4, blockSize = 2, blockNum = 2, associativity = 1, hitLatency = 1, missLatency = 8\<rparr>"

definition statsVictim :: "(32 word, 64 word) cache" where
  "statsVictim =
     Cache \<lparr>blocks = [], referenceCounter = 0, policy = victimCachePolicy,
            statistics = \<lparr>numRead = 3, numWrite = 0, numHit = 1, numMiss = 2, totalCycles = 17\<rparr>,
            enableFifo = False, enableVictimCache = False\<rparr> None"

definition statsParent :: "(32 word, 64 word) cache" where
  "statsParent =
     Cache \<lparr>blocks = [], referenceCounter = 0, policy = L1,
            statistics = \<lparr>numRead = 5, numWrite = 0, numHit = 2, numMiss = 3, totalCycles = 26\<rparr>,
            enableFifo = False, enableVictimCache = True\<rparr> (Some statsVictim)"

definition residentExample :: "(32 word, 64 word) cache" where
  "residentExample =
     Cache \<lparr>blocks =
              [\<lparr>valid = True, modified = False, tag = 3, id_blk = 0, size_blk = 2,
                lastReference = 4, createdAt = 2, data = [7, 9]\<rparr>,
               \<lparr>valid = False, modified = False, tag = 0, id_blk = 1, size_blk = 2,
                lastReference = 0, createdAt = 0, data = [0, 0]\<rparr>],
            referenceCounter = 4, policy = tinyPolicy,
            statistics = \<lparr>numRead = 3, numWrite = 0, numHit = 2, numMiss = 1, totalCycles = 10\<rparr>,
            enableFifo = False, enableVictimCache = False\<rparr> None"

definition policy32 :: policy where
  "policy32 = \<lparr>cacheSize = 64, blockSize = 32, blockNum = 2, associativity = 1,
                hitLatency = 1, missLatency = 8\<rparr>"

definition parent32 :: "(32 word, 64 word) cache" where
  "parent32 =
     Cache \<lparr>blocks = [initBlock policy32 0, initBlock policy32 1], referenceCounter = 0,
            policy = policy32, statistics = zeroStatistics, enableFifo = False,
            enableVictimCache = False\<rparr> None"

text \<open>
  A policy whose geometry the address decoding supports: the divisors are not zero, a set
  fits in the cache, and the offset bits and the set-id bits together take between 1 and
  31 of the 32 bits of an address, so that every shift of \<^verbatim>\<open>getTag\<close> is by less than the
  width of the type. The policies \<open>L1\<close>, \<open>L2\<close>, \<open>L3\<close> and that of the victim cache are such.
\<close>

definition policy_ok :: "policy \<Rightarrow> bool" where
  "policy_ok p =
     (associativity p \<noteq> 0 \<and> blockSize p \<noteq> 0 \<and> associativity p \<le> blockNum p \<and>
      0 < unat (offsetBits p) + unat (idBits p) \<and>
      unat (offsetBits p) + unat (idBits p) < 32)"

text \<open>The length of the chain of victim caches under a cache.\<close>

fun vdepth :: "('n, 'c) cache \<Rightarrow> nat" where
  "vdepth (Cache s v) = (case v of None \<Rightarrow> 0 | Some x \<Rightarrow> Suc (vdepth x))"

text \<open>The invariant of the counters, in a cache and down its victim caches.\<close>

definition ownBalanced :: "('n::comm_ring_1, 'c) statistics \<Rightarrow> bool" where
  "ownBalanced s = (numHit s + numMiss s = numRead s + numWrite s)"

fun balanced :: "('n::comm_ring_1, 'c) cache \<Rightarrow> bool" where
  "balanced (Cache s v) =
     (ownBalanced (statistics s) \<and> (case v of None \<Rightarrow> True | Some x \<Rightarrow> balanced x))"

text \<open>
  A well-formed cache: the blocks are as many as the policy says, each with the set id of
  its index, the block size of the policy and as many bytes; the victim cache is there
  when it is enabled, and is well formed.
\<close>

definition block_ok :: "policy \<Rightarrow> nat \<Rightarrow> block \<Rightarrow> bool" where
  "block_ok p i b =
     (id_blk b = of_nat i div associativity p \<and> size_blk b = blockSize p \<and>
      length (data b) = unat (blockSize p))"

fun cache_ok :: "('n, 'c) cache \<Rightarrow> bool" where
  "cache_ok (Cache s v) =
     (policy_ok (policy s) \<and> length (blocks s) = unat (blockNum (policy s)) \<and>
      (\<forall>i<length (blocks s). block_ok (policy s) i (blocks s ! i)) \<and>
      (enableVictimCache s \<longrightarrow> v \<noteq> None) \<and>
      (case v of None \<Rightarrow> True | Some x \<Rightarrow> cache_ok x))"

definition sameCounters :: "('n, 'c) statistics \<Rightarrow> ('n, 'c) statistics \<Rightarrow> bool" where
  "sameCounters s s' =
     (numRead s' = numRead s \<and> numWrite s' = numWrite s \<and> numHit s' = numHit s \<and>
      numMiss s' = numMiss s)"

text \<open>
  What every method keeps: a well-formed cache stays well formed, a cache with balanced
  counters keeps them balanced, the chain of victim caches and the policy stay. \<open>evolvesW\<close>
  is the same of the caches below.
\<close>

definition evolves :: "('n::comm_ring_1, 'c) cache \<Rightarrow> ('n, 'c) cache \<Rightarrow> bool" where
  "evolves c c' =
     ((cache_ok c \<longrightarrow> cache_ok c') \<and> (balanced c \<longrightarrow> balanced c') \<and>
      vdepth c' = vdepth c \<and> policy (st c') = policy (st c))"

definition evolvesW :: "('n::comm_ring_1, 'c) world \<Rightarrow> ('n, 'c) world \<Rightarrow> bool" where
  "evolvesW w w' = list_all2 evolves (fst w) (fst w')"

text \<open>An update of a block that keeps what \<open>block_ok\<close> reads.\<close>

definition keepsShape :: "(block \<Rightarrow> block) \<Rightarrow> bool" where
  "keepsShape f =
     (\<forall>b. id_blk (f b) = id_blk b \<and> size_blk (f b) = size_blk b \<and>
          length (data (f b)) = length (data b))"

text \<open>Two blocks that differ in their bytes only.\<close>

definition sameHeader :: "block \<Rightarrow> block \<Rightarrow> bool" where
  "sameHeader b b' =
     (valid b' = valid b \<and> modified b' = modified b \<and> tag b' = tag b \<and>
      id_blk b' = id_blk b \<and> size_blk b' = size_blk b \<and>
      lastReference b' = lastReference b \<and> createdAt b' = createdAt b \<and>
      length (data b') = length (data b))"

text \<open>
  The state of a cache after \<^verbatim>\<open>loadBlockFromLowerLevel(addr)\<close> chose the slot \<open>r\<close> that held
  the block \<open>rb\<close> and fetched \<open>bytes\<close>: the new block is in the slot, and a valid modified
  \<open>rb\<close> cost one more miss latency.
\<close>

definition installed ::
  "u32 \<Rightarrow> u32 \<Rightarrow> block \<Rightarrow> u8 list \<Rightarrow> ('n, 'c::comm_ring_1) cache_state \<Rightarrow> ('n, 'c) cache_state" where
  "installed addr r rb bytes s =
     s\<lparr>blocks := (blocks s)
         [unat r := \<lparr>valid = True, modified = False, tag = getTag (policy s) addr,
                     id_blk = getId (policy s) addr, size_blk = blockSize (policy s),
                     lastReference = referenceCounter s, createdAt = referenceCounter s,
                     data = bytes\<rparr>],
       statistics := (statistics s)
         \<lparr>totalCycles := totalCycles (statistics s) +
            (if valid rb \<and> modified rb then of_nat (unat (missLatency (policy s))) else 0)\<rparr>\<rparr>"

definition load_effect :: "u32 \<Rightarrow> ('n::comm_ring_1, 'c::comm_ring_1) cache \<Rightarrow> ('n, 'c) cache \<Rightarrow> bool" where
  "load_effect addr c c' =
     (let p = policy (st c); idx = getId p addr
      in \<exists>r rb bytes.
           getReplacementBlockId c (idx * associativity p) ((idx + 1) * associativity p) = Inr r \<and>
           blockAt (blocks (st c)) r = Inr rb \<and>
           length bytes = unat (blockSize p) \<and>
           st c' = installed addr r rb bytes (st c) \<and>
           rel_option evolves (victimCache c) (victimCache c'))"

text \<open>
  The contracts of the four methods, stated of a function that stands for the method, so
  that each body can be checked against the contracts of the methods it calls.
\<close>

definition getByte_sound :: "('n::comm_ring_1, 'c::comm_ring_1) getByte_t \<Rightarrow> bool" where
  "getByte_sound getB =
     (\<forall>addr c w val c' w'. getB addr c w = Inr (val, c', w') \<longrightarrow>
        evolves c c' \<and> evolvesW w w' \<and> sameCounters (statistics (st c)) (statistics (st c')))"

definition setByte_sound :: "('n::comm_ring_1, 'c::comm_ring_1) setByte_t \<Rightarrow> bool" where
  "setByte_sound setB =
     (\<forall>addr val c w c' w'. setB addr val c w = Inr (c', w') \<longrightarrow>
        evolves c c' \<and> evolvesW w w' \<and> sameCounters (statistics (st c)) (statistics (st c')))"

definition load_sound :: "('n::comm_ring_1, 'c::comm_ring_1) load_t \<Rightarrow> bool" where
  "load_sound load =
     (\<forall>addr isRead c w c' w'. load addr isRead c w = Inr (c', w') \<longrightarrow>
        load_effect addr c c' \<and> evolvesW w w')"

definition writeBlock_sound :: "('n::comm_ring_1, 'c::comm_ring_1) writeBlock_t \<Rightarrow> bool" where
  "writeBlock_sound wb =
     (\<forall>b c w c' w'. wb b c w = Inr (c', w') \<longrightarrow>
        st c' = st c \<and> rel_option evolves (victimCache c) (victimCache c') \<and> evolvesW w w')"

text \<open>An update of a block that keeps what the lookup reads.\<close>

definition keepsLookup :: "(block \<Rightarrow> block) \<Rightarrow> bool" where
  "keepsLookup f = (\<forall>b. valid (f b) = valid b \<and> tag (f b) = tag b \<and> id_blk (f b) = id_blk b)"

text \<open>
  The calls nest three deep in each cache and victim cache (\<^verbatim>\<open>getByte\<close>, the load, the
  write-back); \<open>need\<close> is the depth that a call in a cache over the caches below can reach,
  and \<open>ready k\<close> says that all of them are well formed and that \<open>k\<close> covers the depth.
\<close>

fun chainNeed :: "('n, 'c) cache list \<Rightarrow> nat" where
  "chainNeed [] = 0"
| "chainNeed (l # ls) = 3 * Suc (vdepth l) + chainNeed ls"

definition need :: "('n, 'c) cache \<Rightarrow> ('n, 'c) world \<Rightarrow> nat" where
  "need c w = 3 * Suc (vdepth c) + chainNeed (fst w)"

definition world_ok :: "('n, 'c) world \<Rightarrow> bool" where
  "world_ok w = list_all cache_ok (fst w)"

definition ready :: "nat \<Rightarrow> ('n, 'c) cache \<Rightarrow> ('n, 'c) world \<Rightarrow> bool" where
  "ready k c w = (cache_ok c \<and> world_ok w \<and> need c w \<le> k)"

text \<open>The four methods return, given a depth that covers the hierarchy.\<close>

definition getByte_total :: "nat \<Rightarrow> ('n::comm_ring_1, 'c::comm_ring_1) getByte_t \<Rightarrow> bool" where
  "getByte_total k getB = (\<forall>addr c w. ready k c w \<longrightarrow> (\<exists>r. getB addr c w = Inr r))"

definition setByte_total :: "nat \<Rightarrow> ('n::comm_ring_1, 'c::comm_ring_1) setByte_t \<Rightarrow> bool" where
  "setByte_total k setB = (\<forall>addr val c w. ready k c w \<longrightarrow> (\<exists>r. setB addr val c w = Inr r))"

definition load_total :: "nat \<Rightarrow> ('n::comm_ring_1, 'c::comm_ring_1) load_t \<Rightarrow> bool" where
  "load_total k load = (\<forall>addr isRead c w. ready k c w \<longrightarrow> (\<exists>r. load addr isRead c w = Inr r))"

definition writeBlock_total :: "nat \<Rightarrow> ('n::comm_ring_1, 'c::comm_ring_1) writeBlock_t \<Rightarrow> bool" where
  "writeBlock_total k wb =
     (\<forall>b c w. ready k c w \<and> unat (size_blk b) \<le> length (data b) \<longrightarrow>
        (\<exists>r. wb b c w = Inr r))"

text \<open>The counters of the lower cache through a load: one probe, nothing else.\<close>

definition probed :: "bool \<Rightarrow> bool \<Rightarrow> ('n::comm_ring_1, 'c) statistics \<Rightarrow> ('n, 'c) statistics \<Rightarrow> bool" where
  "probed isRead hit s s' =
     (numRead s' = (if isRead then numRead s + 1 else numRead s) \<and>
      numWrite s' = (if isRead then numWrite s else numWrite s + 1) \<and>
      numHit s' = (if hit then numHit s + 1 else numHit s) \<and>
      numMiss s' = (if hit then numMiss s else numMiss s + 1))"

text \<open>The address of the first byte of the block of an address.\<close>

definition blockAddrBegin :: "policy \<Rightarrow> u32 \<Rightarrow> u32" where
  "blockAddrBegin p addr = addr AND NOT (push_bit (unat (log2i (blockSize p))) 1 - 1)"

text \<open>
  Small states: a cache of one two-byte block that holds a modified block, over a cache of
  two blocks.
\<close>

definition tinyMiss :: policy where
  "tinyMiss = \<lparr>cacheSize = 2, blockSize = 2, blockNum = 1, associativity = 1,
               hitLatency = 1, missLatency = 8\<rparr>"

definition dirtyExample :: "(32 word, 64 word) cache" where
  "dirtyExample =
     Cache \<lparr>blocks =
              [\<lparr>valid = True, modified = True, tag = 0, id_blk = 0, size_blk = 2,
                lastReference = 1, createdAt = 1, data = [0, 0]\<rparr>],
            referenceCounter = 1, policy = tinyMiss,
            statistics = \<lparr>numRead = 0, numWrite = 1, numHit = 0, numMiss = 1, totalCycles = 8\<rparr>,
            enableFifo = False, enableVictimCache = False\<rparr> None"

definition lowerPolicy :: policy where
  "lowerPolicy = \<lparr>cacheSize = 4, blockSize = 2, blockNum = 2, associativity = 2,
                  hitLatency = 8, missLatency = 20\<rparr>"

definition lowerExample :: "(32 word, 64 word) cache" where
  "lowerExample =
     Cache \<lparr>blocks = [initBlock lowerPolicy 0, initBlock lowerPolicy 1],
            referenceCounter = 0, policy = lowerPolicy, statistics = zeroStatistics,
            enableFifo = False, enableVictimCache = False\<rparr> None"

definition freshTiny :: "(32 word, 64 word) cache" where
  "freshTiny =
     Cache \<lparr>blocks = [initBlock tinyMiss 0], referenceCounter = 0, policy = tinyMiss,
            statistics = zeroStatistics, enableFifo = False, enableVictimCache = False\<rparr> None"

definition dirtyFetch ::
  "error + ((32 word, 64 word) cache \<times> (32 word, 64 word) world)" where
  "dirtyFetch = fetch 5 2 dirtyExample ([lowerExample], MemoryManager)"

text \<open>
  The invariants of the three levels together, the depth that a call in L1 can reach, and
  what a step of the hierarchy keeps.
\<close>

definition hier_balanced :: "('n::comm_ring_1, 'c) CacheHierarchy \<Rightarrow> bool" where
  "hier_balanced h = (balanced (l1Cache h) \<and> balanced (l2Cache h) \<and> balanced (l3Cache h))"

definition hier_ok :: "('n, 'c) CacheHierarchy \<Rightarrow> bool" where
  "hier_ok h = (cache_ok (l1Cache h) \<and> cache_ok (l2Cache h) \<and> cache_ok (l3Cache h))"

definition hier_need :: "('n, 'c) CacheHierarchy \<Rightarrow> nat" where
  "hier_need h = need (l1Cache h) (l1World h)"

definition hier_evolves ::
  "('n::comm_ring_1, 'c) CacheHierarchy \<Rightarrow> ('n, 'c) CacheHierarchy \<Rightarrow> bool" where
  "hier_evolves h h' =
     (evolves (l1Cache h) (l1Cache h') \<and> evolves (l2Cache h) (l2Cache h') \<and>
      evolves (l3Cache h) (l3Cache h') \<and> enablePrefetch h' = enablePrefetch h)"

text \<open>A hierarchy of the small caches, with the prefetcher active at stride 2.\<close>

definition tinyHierarchy :: "(32 word, 64 word) CacheHierarchy" where
  "tinyHierarchy =
     \<lparr>memoryManager = MemoryManager, l3Cache = lowerExample, l2Cache = lowerExample,
      l1Cache = dirtyExample, enablePrefetch = True, enableFifo_h = False,
      enableVictimCache_h = False,
      prefetchStatistics = \<lparr>isPrefetching = True, stride = 2, sameStrideCount = 4,
                            diffStrideCount = 0, lastAccessAddress = 0\<rparr>\<rparr>"

definition tinyTrace :: "(char \<times> u32) list" where
  "tinyTrace = [(CHR ''r'', 2), (CHR ''w'', 0)]"

text \<open>
  The caches that the program can hold: those the constructor builds from a policy whose
  geometry fits an address (tag, set id and offset share its 32 bits, so that the shifts
  of \<^verbatim>\<open>getTag\<close> are defined), and those that the methods leave, in the cache called, in
  its victim cache and in the caches below it.
\<close>

inductive reachable :: "('n::comm_ring_1, 'c::comm_ring_1) cache \<Rightarrow> bool" where
  constructed: "newCache p = Inr c \<Longrightarrow> policy_ok p \<Longrightarrow> reachable c"
| victim_set: "reachable c \<Longrightarrow> setVictimCache enable c = Inr c' \<Longrightarrow> reachable c'"
| victim_of: "reachable c \<Longrightarrow> victimCache c = Some v \<Longrightarrow> reachable v"
| invalidated: "reachable c \<Longrightarrow> setInvalid addr c = Inr c' \<Longrightarrow> reachable c'"
| by_read:
    "reachable c \<Longrightarrow> \<forall>l\<in>set (fst w). reachable l \<Longrightarrow>
     read n addr c w = Inr (val, c', w') \<Longrightarrow> x \<in> set (c' # fst w') \<Longrightarrow> reachable x"
| by_write:
    "reachable c \<Longrightarrow> \<forall>l\<in>set (fst w). reachable l \<Longrightarrow>
     write_c n addr val c w = Inr (c', w') \<Longrightarrow> x \<in> set (c' # fst w') \<Longrightarrow> reachable x"
| by_fetch:
    "reachable c \<Longrightarrow> \<forall>l\<in>set (fst w). reachable l \<Longrightarrow>
     fetch n addr c w = Inr (c', w') \<Longrightarrow> x \<in> set (c' # fst w') \<Longrightarrow> reachable x"
| by_getByte:
    "reachable c \<Longrightarrow> \<forall>l\<in>set (fst w). reachable l \<Longrightarrow>
     getByte n addr c w = Inr (val, c', w') \<Longrightarrow> x \<in> set (c' # fst w') \<Longrightarrow> reachable x"
| by_setByte:
    "reachable c \<Longrightarrow> \<forall>l\<in>set (fst w). reachable l \<Longrightarrow>
     setByte n addr val c w = Inr (c', w') \<Longrightarrow> x \<in> set (c' # fst w') \<Longrightarrow> reachable x"
| by_load:
    "reachable c \<Longrightarrow> \<forall>l\<in>set (fst w). reachable l \<Longrightarrow>
     loadBlockFromLowerLevel n addr isRead c w = Inr (c', w') \<Longrightarrow>
     x \<in> set (c' # fst w') \<Longrightarrow> reachable x"
| by_writeBlock:
    "reachable c \<Longrightarrow> \<forall>l\<in>set (fst w). reachable l \<Longrightarrow>
     writeBlockToLowerLevel n b c w = Inr (c', w') \<Longrightarrow>
     x \<in> set (c' # fst w') \<Longrightarrow> reachable x"

text \<open>The prefetcher state that the constructor sets.\<close>

definition initialPrefetch :: PrefetchStatistics where
  "initialPrefetch = \<lparr>isPrefetching = False, stride = 0, sameStrideCount = 0,
                      diffStrideCount = 0, lastAccessAddress = 0\<rparr>"

text \<open>No block of the cache is both valid and modified.\<close>

definition clean :: "('n, 'c) cache \<Rightarrow> bool" where
  "clean c = (\<forall>b\<in>set (blocks (st c)). \<not> (valid b \<and> modified b))"









section \<open>The replacement choice\<close>

lemma blockAt_in_range: "unat i < length bs \<Longrightarrow> blockAt bs i = Inr (bs ! unat i)"
  by (simp add: blockAt_def)

lemma firstInvalid_from_find:
  "unat e \<le> length bs \<Longrightarrow>
   firstInvalid_from bs i e =
     Inr (map_option of_nat (List.find (\<lambda>k. \<not> valid (bs ! k)) [unat i..<unat e]))"
proof (induction bs i e rule: firstInvalid_from.induct)
  case (1 bs i e)
  show ?case
  proof (cases "i < e")
    case True
    then have lt: "unat i < unat e" by (simp add: word_less_nat_alt)
    with "1.prems" have at: "blockAt bs i = Inr (bs ! unat i)"
      by (simp add: blockAt_in_range)
    have upt: "[unat i..<unat e] = unat i # [unat (i + 1)..<unat e]"
      using lt True by (simp add: upt_conv_Cons word_succ_measure(1))
    show ?thesis
    proof (cases "valid (bs ! unat i)")
      case v: True
      with "1.IH" [OF True at] "1.prems" show ?thesis
        by (subst firstInvalid_from.simps) (simp add: True at upt)
    next
      case False
      then show ?thesis
        by (subst firstInvalid_from.simps) (simp add: True at upt)
    qed
  next
    case False
    then have "unat e \<le> unat i" by (simp add: word_less_nat_alt)
    with False show ?thesis
      by (subst firstInvalid_from.simps) simp
  qed
qed

lemma minScan_result:
  "unat e \<le> length bs \<Longrightarrow>
   \<exists>r. minScan key bs i e best mn = Inr r \<and>
     (if \<exists>k. unat i \<le> k \<and> k < unat e \<and> key (bs ! k) < mn
      then unat i \<le> unat r \<and> unat r < unat e \<and> key (bs ! unat r) < mn \<and>
           (\<forall>k. unat i \<le> k \<and> k < unat e \<longrightarrow> key (bs ! unat r) \<le> key (bs ! k)) \<and>
           (\<forall>k. unat i \<le> k \<and> k < unat r \<longrightarrow> key (bs ! unat r) < key (bs ! k))
      else r = best)"
proof (induction key bs i e best mn rule: minScan.induct)
  case (1 key bs i e best mn)
  show ?case
  proof (cases "i < e")
    case False
    then have "unat e \<le> unat i" by (simp add: word_less_nat_alt)
    with False show ?thesis
      by (subst minScan.simps) auto
  next
    case True
    then have lt: "unat i < unat e" by (simp add: word_less_nat_alt)
    with "1.prems" have at: "blockAt bs i = Inr (bs ! unat i)"
      by (simp add: blockAt_in_range)
    have suc: "unat (i + 1) = Suc (unat i)"
      using True by (simp add: word_succ_measure(1))
    show ?thesis
    proof (cases "key (bs ! unat i) < mn")
      case less: True
      from "1.IH"(1) [OF True at less "1.prems", unfolded suc]
      obtain r where r: "minScan key bs (i + 1) e i (key (bs ! unat i)) = Inr r"
        and sp: "if \<exists>k. Suc (unat i) \<le> k \<and> k < unat e \<and> key (bs ! k) < key (bs ! unat i)
      then Suc (unat i) \<le> unat r \<and> unat r < unat e \<and> key (bs ! unat r) < key (bs ! unat i) \<and>
           (\<forall>k. Suc (unat i) \<le> k \<and> k < unat e \<longrightarrow> key (bs ! unat r) \<le> key (bs ! k)) \<and>
           (\<forall>k. Suc (unat i) \<le> k \<and> k < unat r \<longrightarrow> key (bs ! unat r) < key (bs ! k))
      else r = i"
        by blast
      have eq: "minScan key bs i e best mn = Inr r"
        by (subst minScan.simps) (simp add: True at less r)
      have ex: "\<exists>k. unat i \<le> k \<and> k < unat e \<and> key (bs ! k) < mn"
        using lt less by auto
      show ?thesis
      proof (cases "\<exists>k. Suc (unat i) \<le> k \<and> k < unat e \<and> key (bs ! k) < key (bs ! unat i)")
        case True
        with sp have s: "Suc (unat i) \<le> unat r" "unat r < unat e"
          "key (bs ! unat r) < key (bs ! unat i)"
          "\<And>k. Suc (unat i) \<le> k \<Longrightarrow> k < unat e \<Longrightarrow> key (bs ! unat r) \<le> key (bs ! k)"
          "\<And>k. Suc (unat i) \<le> k \<Longrightarrow> k < unat r \<Longrightarrow> key (bs ! unat r) < key (bs ! k)"
          by auto
        have a: "\<And>k. unat i \<le> k \<Longrightarrow> k < unat e \<Longrightarrow> key (bs ! unat r) \<le> key (bs ! k)"
          subgoal for k using s(3) s(4) [of k] by (cases "k = unat i") auto
          done
        have b: "\<And>k. unat i \<le> k \<Longrightarrow> k < unat r \<Longrightarrow> key (bs ! unat r) < key (bs ! k)"
          subgoal for k using s(3) s(5) [of k] by (cases "k = unat i") auto
          done
        have c: "key (bs ! unat r) < mn"
          using s(3) less by (rule order.strict_trans)
        have d: "unat i \<le> unat r"
          using s(1) by simp
        from d s(2) c a b ex eq show ?thesis by auto
      next
        case False
        with sp have ri: "r = i" by simp
        from False have a: "\<And>k. unat i \<le> k \<Longrightarrow> k < unat e \<Longrightarrow> key (bs ! unat i) \<le> key (bs ! k)"
          subgoal for k
            by (cases "k = unat i") (auto simp: not_less Suc_le_eq dest!: spec [of _ k])
          done
        from ri a lt less ex eq show ?thesis by auto
      qed
    next
      case nless: False
      from "1.IH"(2) [OF True at nless "1.prems", unfolded suc]
      obtain r where r: "minScan key bs (i + 1) e best mn = Inr r"
        and sp: "if \<exists>k. Suc (unat i) \<le> k \<and> k < unat e \<and> key (bs ! k) < mn
      then Suc (unat i) \<le> unat r \<and> unat r < unat e \<and> key (bs ! unat r) < mn \<and>
           (\<forall>k. Suc (unat i) \<le> k \<and> k < unat e \<longrightarrow> key (bs ! unat r) \<le> key (bs ! k)) \<and>
           (\<forall>k. Suc (unat i) \<le> k \<and> k < unat r \<longrightarrow> key (bs ! unat r) < key (bs ! k))
      else r = best"
        by blast
      have eq: "minScan key bs i e best mn = Inr r"
        by (subst minScan.simps) (simp add: True at nless r)
      have iff: "(\<exists>k. unat i \<le> k \<and> k < unat e \<and> key (bs ! k) < mn) \<longleftrightarrow>
                 (\<exists>k. Suc (unat i) \<le> k \<and> k < unat e \<and> key (bs ! k) < mn)"
        using nless by (metis Suc_leI Suc_leD le_neq_implies_less)
      show ?thesis
      proof (cases "\<exists>k. Suc (unat i) \<le> k \<and> k < unat e \<and> key (bs ! k) < mn")
        case True
        with sp have s: "Suc (unat i) \<le> unat r" "unat r < unat e"
          "key (bs ! unat r) < mn"
          "\<And>k. Suc (unat i) \<le> k \<Longrightarrow> k < unat e \<Longrightarrow> key (bs ! unat r) \<le> key (bs ! k)"
          "\<And>k. Suc (unat i) \<le> k \<Longrightarrow> k < unat r \<Longrightarrow> key (bs ! unat r) < key (bs ! k)"
          by auto
        have a: "\<And>k. unat i \<le> k \<Longrightarrow> k < unat e \<Longrightarrow> key (bs ! unat r) \<le> key (bs ! k)"
          subgoal for k using s(3) nless s(4) [of k] by (cases "k = unat i") auto
          done
        have b: "\<And>k. unat i \<le> k \<Longrightarrow> k < unat r \<Longrightarrow> key (bs ! unat r) < key (bs ! k)"
          subgoal for k using s(3) nless s(5) [of k] by (cases "k = unat i") auto
          done
        have d: "unat i \<le> unat r"
          using s(1) by simp
        from d s(2) s(3) a b iff True eq show ?thesis by auto
      next
        case False
        with sp iff eq show ?thesis by auto
      qed
    qed
  qed
qed

lemma find_upt_Some:
  assumes "List.find P [b..<e] = Some k"
  shows "b \<le> k" and "k < e" and "P k" and "\<forall>j. b \<le> j \<and> j < k \<longrightarrow> \<not> P j"
proof -
  from assms obtain i where i: "i < length [b..<e]" "P ([b..<e] ! i)" "k = [b..<e] ! i"
    "\<forall>j<i. \<not> P ([b..<e] ! j)"
    by (auto simp: find_Some_iff)
  then have k: "k = b + i" and ie: "i < e - b" by auto
  from k ie show "b \<le> k" "k < e" by auto
  from i k show "P k" by simp
  show "\<forall>j. b \<le> j \<and> j < k \<longrightarrow> \<not> P j"
  proof (intro allI impI)
    fix j assume j: "b \<le> j \<and> j < k"
    then have "j - b < i" using k by auto
    with i(4) have "\<not> P ([b..<e] ! (j - b))" by blast
    moreover have "[b..<e] ! (j - b) = j" using j k ie by auto
    ultimately show "\<not> P j" by simp
  qed
qed

lemma getReplacementBlockId_correct:
  assumes "begin < end" and "unat end \<le> length (blocks (st c))"
  shows "\<exists>r. getReplacementBlockId c begin end = Inr r \<and>
             chooseVictim_spec c (unat begin) (unat end) (unat r)"
proof -
  let ?bs = "blocks (st c)"
  let ?b = "unat begin" and ?e = "unat end"
  from assms(1) have lt: "?b < ?e" by (simp add: word_less_nat_alt)
  note fi = firstInvalid_from_find [OF assms(2), of "begin"]
  show ?thesis
  proof (cases "List.find (\<lambda>k. \<not> valid (?bs ! k)) [?b..<?e]")
    case (Some k)
    note f = find_upt_Some [OF Some]
    have "k < 2 ^ 32"
      using f(2) unsigned_less [of "end", where 'a = nat] by simp
    then have uk: "unat (of_nat k :: u32) = k"
      by (simp add: unat_of_nat)
    have ex: "\<exists>i\<in>{?b..<?e}. \<not> valid (?bs ! i)"
      using f by auto
    have "lowestInvalid ?bs ?b ?e k"
      using f by (auto simp: lowestInvalid_def)
    with ex uk fi Some show ?thesis
      by (simp add: getReplacementBlockId_def chooseVictim_spec_def)
  next
    case None
    then have allv: "\<forall>i\<in>{?b..<?e}. valid (?bs ! i)"
      by (auto simp: find_None_iff)
    from lt assms(2) have at: "blockAt ?bs begin = Inr (?bs ! ?b)"
      by (simp add: blockAt_in_range)
    show ?thesis
    proof (cases "enableFifo (st c)")
      case True
      have suc: "unat (begin + 1) = Suc ?b"
        using assms(1) by (simp add: word_succ_measure(1))
      from minScan_result [OF assms(2), of createdAt "begin + 1" "begin" "createdAt (?bs ! ?b)"]
      obtain r where r: "minScan createdAt ?bs (begin + 1) end begin (createdAt (?bs ! ?b)) = Inr r"
        and sp: "if \<exists>k. Suc ?b \<le> k \<and> k < ?e \<and> createdAt (?bs ! k) < createdAt (?bs ! ?b)
          then Suc ?b \<le> unat r \<and> unat r < ?e \<and> createdAt (?bs ! unat r) < createdAt (?bs ! ?b) \<and>
               (\<forall>k. Suc ?b \<le> k \<and> k < ?e \<longrightarrow> createdAt (?bs ! unat r) \<le> createdAt (?bs ! k)) \<and>
               (\<forall>k. Suc ?b \<le> k \<and> k < unat r \<longrightarrow> createdAt (?bs ! unat r) < createdAt (?bs ! k))
          else r = begin"
        unfolding suc by blast
      have "lowestMinimum createdAt ?bs ?b ?e (unat r)"
      proof (cases "\<exists>k. Suc ?b \<le> k \<and> k < ?e \<and> createdAt (?bs ! k) < createdAt (?bs ! ?b)")
        case True
        with sp have s: "Suc ?b \<le> unat r" "unat r < ?e"
          "createdAt (?bs ! unat r) < createdAt (?bs ! ?b)"
          "\<And>k. Suc ?b \<le> k \<Longrightarrow> k < ?e \<Longrightarrow> createdAt (?bs ! unat r) \<le> createdAt (?bs ! k)"
          "\<And>k. Suc ?b \<le> k \<Longrightarrow> k < unat r \<Longrightarrow> createdAt (?bs ! unat r) < createdAt (?bs ! k)"
          by auto
        have a: "\<And>k. ?b \<le> k \<Longrightarrow> k < ?e \<Longrightarrow> createdAt (?bs ! unat r) \<le> createdAt (?bs ! k)"
          subgoal for k using s(3) s(4) [of k] by (cases "k = ?b") auto
          done
        have b: "\<And>k. ?b \<le> k \<Longrightarrow> k < unat r \<Longrightarrow> createdAt (?bs ! unat r) \<noteq> createdAt (?bs ! k)"
          subgoal for k using s(3) s(5) [of k] by (cases "k = ?b") auto
          done
        from s(1,2) a b show ?thesis
          by (auto simp: lowestMinimum_def)
      next
        case False
        with sp have rb: "r = begin" by simp
        from False have "\<And>k. ?b \<le> k \<Longrightarrow> k < ?e \<Longrightarrow> createdAt (?bs ! ?b) \<le> createdAt (?bs ! k)"
          subgoal for k
            by (cases "k = ?b") (auto simp: not_less Suc_le_eq dest!: spec [of _ k])
          done
        with rb lt show ?thesis
          by (auto simp: lowestMinimum_def)
      qed
      with allv at True r show ?thesis
        using fi None by (simp add: getReplacementBlockId_def chooseVictim_spec_def)
    next
      case False
      from minScan_result [OF assms(2), of lastReference "begin" "begin" "lastReference (?bs ! ?b)"]
      obtain r where r: "minScan lastReference ?bs begin end begin (lastReference (?bs ! ?b)) = Inr r"
        and sp: "if \<exists>k. ?b \<le> k \<and> k < ?e \<and> lastReference (?bs ! k) < lastReference (?bs ! ?b)
          then ?b \<le> unat r \<and> unat r < ?e \<and> lastReference (?bs ! unat r) < lastReference (?bs ! ?b) \<and>
               (\<forall>k. ?b \<le> k \<and> k < ?e \<longrightarrow> lastReference (?bs ! unat r) \<le> lastReference (?bs ! k)) \<and>
               (\<forall>k. ?b \<le> k \<and> k < unat r \<longrightarrow> lastReference (?bs ! unat r) < lastReference (?bs ! k))
          else r = begin"
        by blast
      have "lowestMinimum lastReference ?bs ?b ?e (unat r)"
      proof (cases "\<exists>k. ?b \<le> k \<and> k < ?e \<and> lastReference (?bs ! k) < lastReference (?bs ! ?b)")
        case True
        with sp show ?thesis
          by (auto simp: lowestMinimum_def)
      next
        case False
        with sp have rb: "r = begin" by simp
        from False have "\<And>k. ?b \<le> k \<Longrightarrow> k < ?e \<Longrightarrow> lastReference (?bs ! ?b) \<le> lastReference (?bs ! k)"
          by (auto simp: not_less)
        with rb lt show ?thesis
          by (auto simp: lowestMinimum_def)
      qed
      with allv at False r show ?thesis
        using fi None by (simp add: getReplacementBlockId_def chooseVictim_spec_def)
    qed
  qed
qed

text \<open>
  Claim C3. For every cache state and every range of slots \<open>begin\<close> to \<open>end - 1\<close> that holds
  at least one slot and lies within the blocks (the slots of an address's set),
  \<^verbatim>\<open>getReplacementBlockId\<close> returns a slot, and it is the choice of the specification: if
  any slot is invalid, the lowest-indexed invalid slot; else, with FIFO enabled, the slot
  with minimum \<open>createdAt\<close>, ties broken by lowest index; else the slot with minimum
  \<open>lastReference\<close>, ties broken by lowest index.
\<close>

theorem getReplacementBlockId_choice:
  assumes "begin < end" and "unat end \<le> length (blocks (st c))"
  shows "\<exists>r. getReplacementBlockId c begin end = Inr r \<and>
             chooseVictim_spec c (unat begin) (unat end) (unat r)"
  using assms by (rule getReplacementBlockId_correct)

text \<open>
  Four valid slots with \<open>lastReference\<close> 7, 5, 5 and 9 under LRU: the choice is slot 1, the
  lower of the two slots with the minimum.
\<close>

theorem getReplacementBlockId_choice_witness:
  "(0 :: u32) < 4 \<and> unat (4 :: u32) \<le> length (blocks (st lruExample)) \<and>
   getReplacementBlockId lruExample 0 4 = Inr 1 \<and>
   chooseVictim_spec lruExample (unat (0 :: u32)) (unat (4 :: u32)) (unat (1 :: u32))"
proof -
  have a: "(0 :: u32) < 4" by simp
  have b: "unat (4 :: u32) \<le> length (blocks (st lruExample))"
    by (simp add: lruExample_def)
  have c: "getReplacementBlockId lruExample 0 4 = Inr 1"
    by code_simp
  from getReplacementBlockId_choice [OF a b] c a b show ?thesis
    by auto
qed

section \<open>Statistics, the victim cache and a resident fetch\<close>

text \<open>
  Claim C2. For a cache that owns an enabled victim cache, \<^verbatim>\<open>getStatistics\<close> returns the
  raw counters with \<open>numMiss\<close> lowered and \<open>numHit\<close> raised by the victim cache's
  \<open>numHit\<close>, and \<open>numRead\<close>, \<open>numWrite\<close> and \<open>totalCycles\<close> as they are; for a cache
  without a victim cache it returns the raw counters.
\<close>

theorem getStatistics_adjustment:
  "(enableVictimCache (st c) \<and> victimCache c = Some v \<longrightarrow>
      numMiss (getStatistics c) = numMiss (statistics (st c)) - numHit (statistics (st v)) \<and>
      numHit (getStatistics c) = numHit (statistics (st c)) + numHit (statistics (st v)) \<and>
      numRead (getStatistics c) = numRead (statistics (st c)) \<and>
      numWrite (getStatistics c) = numWrite (statistics (st c)) \<and>
      totalCycles (getStatistics c) = totalCycles (statistics (st c))) \<and>
   (\<not> enableVictimCache (st c) \<or> victimCache c = None \<longrightarrow>
      getStatistics c = statistics (st c))"
  by (auto simp: getStatistics_def enabledVictim_def Let_def split: option.splits)

theorem getStatistics_adjustment_witness:
  "enableVictimCache (st statsParent) \<and> victimCache statsParent = Some statsVictim \<and>
   getStatistics statsParent =
     \<lparr>numRead = 5, numWrite = 0, numHit = 3, numMiss = 2, totalCycles = 26\<rparr> \<and>
   victimCache statsVictim = None \<and> getStatistics statsVictim = statistics (st statsVictim)"
  using getStatistics_adjustment [of statsParent statsVictim]
    getStatistics_adjustment [of statsVictim statsVictim]
  by (simp add: statsParent_def statsVictim_def)

text \<open>
  Claim C10. For every cache state and every address that is in the cache, \<^verbatim>\<open>fetch\<close>
  changes nothing: the cache (its blocks with \<open>lastReference\<close> and \<open>createdAt\<close>, its
  statistics, its reference counter, its victim cache), the caches below and the memory
  are returned as they were.
\<close>

theorem fetch_resident_unchanged:
  assumes "inCache c addr = Inr True"
  shows "fetch n addr c w = Inr (c, w)"
  using assms by (auto simp: fetch_def inCache_def split: sum.splits)

theorem fetch_resident_unchanged_witness:
  "inCache residentExample 13 = Inr True \<and>
   fetch 0 13 residentExample ([], MemoryManager) = Inr (residentExample, [], MemoryManager)"
proof -
  have "inCache residentExample 13 = Inr True"
    by code_simp
  with fetch_resident_unchanged [of residentExample 13 0 "([], MemoryManager)"]
  show ?thesis by simp
qed

lemma newCache_policy32: "newCache policy32 = Inr parent32"
  by code_simp



lemma bit_width_0 [simp]: "bit_width 0 = 0"
  by (simp add: bit_width.simps)

lemma bit_width_pos: "0 < n \<Longrightarrow> bit_width n = Suc (bit_width (n div 2))"
  by (subst bit_width.simps) simp

lemma bit_width_le: "n < 2 ^ k \<Longrightarrow> bit_width n \<le> k"
proof (induction k arbitrary: n)
  case 0
  then show ?case by simp
next
  case (Suc k)
  show ?case
  proof (cases "n = 0")
    case True
    then show ?thesis by simp
  next
    case False
    from Suc.prems have "n div 2 < 2 ^ k" by simp
    from Suc.IH [OF this] False show ?thesis
      by (simp add: bit_width_pos)
  qed
qed

lemma pow_bit_width: "0 < n \<Longrightarrow> 2 ^ (bit_width n - 1) \<le> n"
proof (induction n rule: bit_width.induct)
  case (1 n)
  show ?case
  proof (cases "n div 2 = 0")
    case True
    with "1.prems" show ?thesis
      by (simp add: bit_width_pos)
  next
    case False
    then have pos: "0 < n div 2" by simp
    with "1.IH" "1.prems" have "2 ^ (bit_width (n div 2) - 1) \<le> n div 2" by simp
    moreover have "bit_width (n div 2) = Suc (bit_width (n div 2) - 1)"
      using pos by (simp add: bit_width_pos)
    ultimately have "2 ^ bit_width (n div 2) \<le> 2 * (n div 2)"
      by (metis mult_le_mono2 power_Suc)
    also have "\<dots> \<le> n" by simp
    finally show ?thesis
      using "1.prems" by (simp add: bit_width_pos)
  qed
qed

lemma unat_log2i:
  assumes "v \<noteq> 0"
  shows "unat (log2i v) = bit_width (unat v) - 1" and "unat (log2i v) < 32"
proof -
  have pos: "0 < unat v" using assms by (simp add: unat_gt_0)
  have "unat v < 2 ^ 32" using unsigned_less [of v, where 'a = nat] by simp
  then have le: "bit_width (unat v) \<le> 32" by (rule bit_width_le)
  have ge: "1 \<le> bit_width (unat v)" using pos by (simp add: bit_width_pos)
  have "log2i v = of_nat (bit_width (unat v) - 1)"
    using assms ge by (simp add: log2i_def)
  moreover have "bit_width (unat v) - 1 < 2 ^ 32" using le by simp
  ultimately show "unat (log2i v) = bit_width (unat v) - 1"
    by (simp add: unat_of_nat)
  with le ge show "unat (log2i v) < 32" by simp
qed

lemma and_low_bits_less:
  fixes x :: u32
  assumes "k < 32"
  shows "unat (x AND (push_bit k 1 - 1)) < 2 ^ k"
proof -
  have "push_bit k (1 :: u32) - 1 = mask k"
    by (simp add: mask_eq_decr_exp push_bit_eq_mult)
  moreover have "unat (x AND mask k) < 2 ^ k"
  proof -
    have "unat (x AND mask k) = unat (take_bit k x)"
      by (simp only: take_bit_eq_mask)
    also have "\<dots> = take_bit k (unat x)"
      by (rule unsigned_take_bit_eq)
    also have "\<dots> = unat x mod 2 ^ k"
      by (rule take_bit_eq_mod)
    finally show ?thesis by simp
  qed
  ultimately show ?thesis by simp
qed

lemma sets_nonzero:
  assumes "policy_ok p"
  shows "blockNum p div associativity p \<noteq> 0"
proof -
  from assms have a: "0 < unat (associativity p)" "unat (associativity p) \<le> unat (blockNum p)"
    by (simp_all add: policy_ok_def unat_gt_0 word_le_nat_alt)
  then have "0 < unat (blockNum p) div unat (associativity p)"
    by (simp add: div_greater_zero_iff)
  then show ?thesis
    by (metis unat_div unat_0 less_numeral_extra(3))
qed

lemma unat_getId_less:
  assumes "policy_ok p"
  shows "unat (getId p addr) < unat (blockNum p) div unat (associativity p)"
proof -
  let ?sets = "blockNum p div associativity p"
  note nz = sets_nonzero [OF assms]
  have k: "unat (idBits p) = bit_width (unat ?sets) - 1" "unat (idBits p) < 32"
    using unat_log2i [OF nz] by (simp_all add: idBits_def)
  have "unat (getId p addr) < 2 ^ unat (idBits p)"
    unfolding getId_def Let_def by (rule and_low_bits_less) (rule k(2))
  also have "\<dots> \<le> unat ?sets"
    unfolding k(1) using nz by (intro pow_bit_width) (simp add: unat_gt_0)
  finally show ?thesis
    by (simp add: unat_div)
qed

lemma set_range:
  fixes p :: policy and addr :: u32
  assumes "policy_ok p"
  defines "idx \<equiv> getId p addr"
  shows "unat (idx * associativity p) = unat idx * unat (associativity p)"
    and "unat ((idx + 1) * associativity p) = unat idx * unat (associativity p) + unat (associativity p)"
    and "unat idx * unat (associativity p) + unat (associativity p) \<le> unat (blockNum p)"
    and "idx * associativity p < (idx + 1) * associativity p"
proof -
  let ?a = "unat (associativity p)" and ?n = "unat (blockNum p)"
  from assms have a: "0 < ?a"
    by (simp add: policy_ok_def unat_gt_0)
  have "unat idx < ?n div ?a"
    unfolding idx_def by (rule unat_getId_less) fact
  then have "Suc (unat idx) \<le> ?n div ?a" by simp
  then have "Suc (unat idx) * ?a \<le> (?n div ?a) * ?a"
    by (rule mult_le_mono1)
  also have "\<dots> \<le> ?n" by simp
  finally show le: "unat idx * ?a + ?a \<le> ?n" by simp
  have n: "?n < 2 ^ 32" using unsigned_less [of "blockNum p", where 'a = nat] by simp
  from le n have "unat idx * ?a < 2 ^ 32" by simp
  then show m1: "unat (idx * associativity p) = unat idx * ?a"
    by (simp add: unat_word_ariths)
  have "unat idx \<le> unat idx * ?a"
    using a by simp
  with le a have "unat idx < ?n"
    by linarith
  with n have u1: "unat (idx + 1) = unat idx + 1"
    by (simp add: unat_word_ariths)
  from le n have "(unat idx + 1) * ?a < 2 ^ 32"
    by simp
  then have "(unat idx + 1) * ?a mod 2 ^ LENGTH(32) = (unat idx + 1) * ?a"
    by simp
  moreover have "unat ((idx + 1) * associativity p) = unat (idx + 1) * ?a mod 2 ^ LENGTH(32)"
    by (rule unat_word_ariths(2))
  ultimately have "unat ((idx + 1) * associativity p) = (unat idx + 1) * ?a"
    by (simp only: u1)
  then show m2: "unat ((idx + 1) * associativity p) = unat idx * ?a + ?a"
    by simp
  from m1 m2 a show "idx * associativity p < (idx + 1) * associativity p"
    by (simp add: word_less_nat_alt)
qed

lemma getOffset_less:
  assumes "policy_ok p"
  shows "unat (getOffset p addr) < unat (blockSize p)"
proof -
  from assms have nz: "blockSize p \<noteq> 0" by (simp add: policy_ok_def)
  have k: "unat (log2i (blockSize p)) = bit_width (unat (blockSize p)) - 1"
    "unat (log2i (blockSize p)) < 32"
    using unat_log2i [OF nz] by simp_all
  have "unat (getOffset p addr) < 2 ^ unat (log2i (blockSize p))"
    unfolding getOffset_def Let_def by (rule and_low_bits_less) (rule k(2))
  also have "\<dots> \<le> unat (blockSize p)"
    unfolding k(1) using nz by (intro pow_bit_width) (simp add: unat_gt_0)
  finally show ?thesis .
qed

lemma vdepth_eq: "vdepth c = (case victimCache c of None \<Rightarrow> 0 | Some x \<Rightarrow> Suc (vdepth x))"
  by (cases c) simp

lemma balanced_eq:
  "balanced c =
     (ownBalanced (statistics (st c)) \<and>
      (case victimCache c of None \<Rightarrow> True | Some x \<Rightarrow> balanced x))"
  by (cases c) simp

lemma cache_ok_eq:
  "cache_ok c =
     (policy_ok (policy (st c)) \<and> length (blocks (st c)) = unat (blockNum (policy (st c))) \<and>
      (\<forall>i<length (blocks (st c)). block_ok (policy (st c)) i (blocks (st c) ! i)) \<and>
      (enableVictimCache (st c) \<longrightarrow> victimCache c \<noteq> None) \<and>
      (case victimCache c of None \<Rightarrow> True | Some x \<Rightarrow> cache_ok x))"
  by (cases c) simp

lemma evolves_refl [simp]: "evolves c c"
  by (simp add: evolves_def)

lemma evolves_trans: "evolves a b \<Longrightarrow> evolves b c \<Longrightarrow> evolves a c"
  by (simp add: evolves_def)

lemma evolvesW_refl [simp]: "evolvesW w w"
  by (simp add: evolvesW_def list_all2_refl)

lemma evolvesW_trans: "evolvesW a b \<Longrightarrow> evolvesW b c \<Longrightarrow> evolvesW a c"
  unfolding evolvesW_def by (rule list_all2_trans [OF evolves_trans])

lemma sameCounters_refl [simp]: "sameCounters s s"
  by (simp add: sameCounters_def)

lemma sameCounters_trans: "sameCounters a b \<Longrightarrow> sameCounters b c \<Longrightarrow> sameCounters a c"
  by (simp add: sameCounters_def)

lemma st_map_st [simp]: "st (map_st f c) = f (st c)"
  by (simp add: map_st_def)

lemma victimCache_map_st [simp]: "victimCache (map_st f c) = victimCache c"
  by (simp add: map_st_def)

lemma st_map_statistics [simp]:
  "st (map_statistics f c) = (st c)\<lparr>statistics := f (statistics (st c))\<rparr>"
  by (simp add: map_statistics_def)

lemma victimCache_map_statistics [simp]: "victimCache (map_statistics f c) = victimCache c"
  by (simp add: map_statistics_def)

text \<open>How a cache may change and still evolve: the rule behind every step.\<close>

lemma evolvesI:
  assumes "policy (st c') = policy (st c)"
    and "enableVictimCache (st c') = enableVictimCache (st c)"
    and "rel_option evolves (victimCache c) (victimCache c')"
    and "cache_ok c \<Longrightarrow> length (blocks (st c')) = length (blocks (st c)) \<and>
           (\<forall>i<length (blocks (st c)). block_ok (policy (st c)) i (blocks (st c') ! i))"
    and "ownBalanced (statistics (st c)) \<Longrightarrow> ownBalanced (statistics (st c'))"
  shows "evolves c c'"
proof -
  have v: "vdepth c' = vdepth c"
    using assms(3) by (auto simp: vdepth_eq [of c] vdepth_eq [of c'] evolves_def
        elim!: option.rel_cases)
  have b: "balanced c \<longrightarrow> balanced c'"
    using assms(3,5) by (auto simp: balanced_eq [of c] balanced_eq [of c'] evolves_def
        elim!: option.rel_cases)
  have o: "cache_ok c \<longrightarrow> cache_ok c'"
  proof
    assume ok: "cache_ok c"
    note l = assms(4) [OF ok]
    from ok l assms(1,2,3) show "cache_ok c'"
      by (auto simp: cache_ok_eq [of c] cache_ok_eq [of c'] evolves_def
          elim!: option.rel_cases)
  qed
  from v b o assms(1) show ?thesis
    by (simp add: evolves_def)
qed

lemma evolves_victim:
  assumes "evolves v v'"
  shows "evolves (Cache s (Some v)) (Cache s (Some v'))"
  by (rule evolvesI) (use assms in \<open>auto simp: cache_ok_eq [of "Cache s (Some v)"]\<close>)

lemma for_loop_rule:
  assumes "for_loop i e body s = Inr s'"
    and "P s"
    and "\<And>j x x'. P x \<Longrightarrow> body j x = Inr x' \<Longrightarrow> P x'"
  shows "P s'"
  using assms
proof (induction i e body s rule: for_loop.induct)
  case (1 i e body s)
  show ?case
  proof (cases "i < e")
    case True
    with "1.prems"(1) obtain x where x: "body i s = Inr x"
      and rest: "for_loop (i + 1) e body x = Inr s'"
      by (subst (asm) for_loop.simps) (auto split: sum.splits)
    from "1.prems"(3) [OF "1.prems"(2) x] have "P x" .
    from "1.IH" [OF True x rest this "1.prems"(3)] show ?thesis .
  next
    case False
    with "1.prems" show ?thesis
      by (subst (asm) for_loop.simps) simp
  qed
qed

lemma updateBlock_Inr:
  assumes "updateBlock i f c = Inr c'"
  shows "unat i < length (blocks (st c))"
    and "st c' = (st c)\<lparr>blocks := (blocks (st c))[unat i := f (blocks (st c) ! unat i)]\<rparr>"
    and "victimCache c' = victimCache c"
  using assms by (auto simp: updateBlock_def split: if_splits)

lemma setDataAt_Inr:
  assumes "setDataAt k val b = Inr b'"
  shows "b' = b\<lparr>data := (data b)[unat k := val]\<rparr>"
  using assms by (auto simp: setDataAt_def split: if_splits)

lemma updateBlock_evolves:
  assumes "updateBlock i f c = Inr c'" and "keepsShape f"
  shows "evolves c c'" and "statistics (st c') = statistics (st c)"
    and "policy (st c') = policy (st c)"
proof -
  note u = updateBlock_Inr [OF assms(1)]
  show "evolves c c'"
  proof (rule evolvesI)
    show "rel_option evolves (victimCache c) (victimCache c')"
      by (simp add: u(3) option.rel_refl)
    show "length (blocks (st c')) = length (blocks (st c)) \<and>
           (\<forall>i<length (blocks (st c)). block_ok (policy (st c)) i (blocks (st c') ! i))"
      if "cache_ok c"
      using that assms(2) u(1)
      by (auto simp: u(2) cache_ok_eq [of c] nth_list_update block_ok_def keepsShape_def)
  qed (simp_all add: u(2))
  show "statistics (st c') = statistics (st c)" "policy (st c') = policy (st c)"
    by (simp_all add: u(2))
qed

lemma readBlockByte_evolves:
  assumes "readBlockByte blockId addr c = Inr (val, c')"
  shows "evolves c c'" and "statistics (st c') = statistics (st c)"
proof -
  from assms obtain u where
    u: "updateBlock blockId (\<lambda>b. b\<lparr>lastReference := referenceCounter (st c)\<rparr>) c = Inr u"
    and c': "c' = u"
    by (auto simp: readBlockByte_def split: sum.splits)
  have k: "keepsShape (\<lambda>b. b\<lparr>lastReference := referenceCounter (st c)\<rparr>)"
    by (simp add: keepsShape_def)
  from updateBlock_evolves [OF u k] c'
  show "evolves c c'" "statistics (st c') = statistics (st c)" by simp_all
qed

lemma writeBlockByte_evolves:
  assumes "writeBlockByte blockId addr val c = Inr c'"
  shows "evolves c c'" and "statistics (st c') = statistics (st c)"
proof -
  from assms obtain u b b' where
    u: "updateBlock blockId
          (\<lambda>b. b\<lparr>modified := True, lastReference := referenceCounter (st c)\<rparr>) c = Inr u"
    and b: "blockAt (blocks (st u)) blockId = Inr b"
    and b': "setDataAt (getOffset (policy (st c)) addr) val b = Inr b'"
    and c': "updateBlock blockId (\<lambda>b. b') u = Inr c'"
    by (auto simp: writeBlockByte_def split: sum.splits)
  have k: "keepsShape (\<lambda>b. b\<lparr>modified := True, lastReference := referenceCounter (st c)\<rparr>)"
    by (simp add: keepsShape_def)
  note e1 = updateBlock_evolves [OF u k]
  note u2 = updateBlock_Inr [OF c']
  from b u2(1) have bb: "b = blocks (st u) ! unat blockId"
    by (simp add: blockAt_def)
  have b'eq: "b' = b\<lparr>data := (data b)[unat (getOffset (policy (st c)) addr) := val]\<rparr>"
    by (rule setDataAt_Inr [OF b'])
  have "updateBlock blockId
          (\<lambda>x. x\<lparr>data := (data x)[unat (getOffset (policy (st c)) addr) := val]\<rparr>) u = Inr c'"
    using c' u2(1) by (simp add: updateBlock_def b'eq bb map_st_def)
  moreover have "keepsShape
    (\<lambda>x. x\<lparr>data := (data x)[unat (getOffset (policy (st c)) addr) := val]\<rparr>)"
    by (simp add: keepsShape_def)
  ultimately have e2: "evolves u c'" "statistics (st c') = statistics (st u)"
    by (rule updateBlock_evolves)+
  from e1 e2 show "evolves c c'" "statistics (st c') = statistics (st c)"
    by (auto intro: evolves_trans)
qed

lemma bump_referenceCounter_evolves:
  "evolves c (map_st (\<lambda>s. s\<lparr>referenceCounter := referenceCounter s + 1\<rparr>) c)"
  by (rule evolvesI) (auto simp: option.rel_refl cache_ok_eq [of c])

lemma map_statistics_evolves:
  assumes "ownBalanced (statistics (st c)) \<Longrightarrow> ownBalanced (f (statistics (st c)))"
  shows "evolves c (map_statistics f c)"
  by (rule evolvesI) (use assms in \<open>auto simp: option.rel_refl cache_ok_eq [of c]\<close>)

lemma getByte_soundD:
  assumes "getByte_sound getB" and "getB addr c w = Inr (val, c', w')"
  shows "evolves c c'" and "evolvesW w w'"
    and "sameCounters (statistics (st c)) (statistics (st c'))"
  using assms unfolding getByte_sound_def by blast+

lemma setByte_soundD:
  assumes "setByte_sound setB" and "setB addr val c w = Inr (c', w')"
  shows "evolves c c'" and "evolvesW w w'"
    and "sameCounters (statistics (st c)) (statistics (st c'))"
  using assms unfolding setByte_sound_def by blast+

lemma load_soundD:
  assumes "load_sound load" and "load addr isRead c w = Inr (c', w')"
  shows "load_effect addr c c'" and "evolvesW w w'"
  using assms unfolding load_sound_def by blast+

lemma writeBlock_soundD:
  assumes "writeBlock_sound wb" and "wb b c w = Inr (c', w')"
  shows "st c' = st c" and "rel_option evolves (victimCache c) (victimCache c')"
    and "evolvesW w w'"
  using assms unfolding writeBlock_sound_def by blast+

lemma word_div_in_set:
  fixes r a idx :: u32
  assumes "unat idx * unat a \<le> unat r" and "unat r < unat idx * unat a + unat a"
  shows "of_nat (unat r) div a = idx"
proof -
  have "unat (r div a) = unat r div unat a"
    by (rule unat_div)
  also have "\<dots> = unat idx"
    using assms by (metis add.commute div_nat_eqI mult.commute mult_Suc_right)
  finally show ?thesis
    by (simp add: word_unat_eq_iff)
qed

lemma chooseVictim_spec_range:
  assumes "chooseVictim_spec c b e r"
  shows "b \<le> r \<and> r < e"
  using assms
  by (auto simp: chooseVictim_spec_def lowestInvalid_def lowestMinimum_def Let_def
      split: if_splits)

lemma replaced_in_set:
  assumes ok: "cache_ok c"
    and r: "getReplacementBlockId c (getId (policy (st c)) addr * associativity (policy (st c)))
              ((getId (policy (st c)) addr + 1) * associativity (policy (st c))) = Inr r"
  shows "unat (getId (policy (st c)) addr) * unat (associativity (policy (st c))) \<le> unat r"
    and "unat r < unat (getId (policy (st c)) addr) * unat (associativity (policy (st c))) +
                  unat (associativity (policy (st c)))"
    and "unat r < length (blocks (st c))"
    and "of_nat (unat r) div associativity (policy (st c)) = getId (policy (st c)) addr"
proof -
  let ?p = "policy (st c)"
  from ok have pok: "policy_ok ?p" and len: "length (blocks (st c)) = unat (blockNum ?p)"
    by (simp_all add: cache_ok_eq [of c])
  note sr = set_range [OF pok, of addr]
  have e: "unat ((getId ?p addr + 1) * associativity ?p) \<le> length (blocks (st c))"
    using sr(2,3) len by simp
  from getReplacementBlockId_correct [OF sr(4) e] r
  have "chooseVictim_spec c (unat (getId ?p addr * associativity ?p))
          (unat ((getId ?p addr + 1) * associativity ?p)) (unat r)"
    by auto
  from chooseVictim_spec_range [OF this]
  show a: "unat (getId ?p addr) * unat (associativity ?p) \<le> unat r"
    and b: "unat r < unat (getId ?p addr) * unat (associativity ?p) + unat (associativity ?p)"
    by (simp_all add: sr(1,2))
  from b sr(3) len show "unat r < length (blocks (st c))" by simp
  from a b show "of_nat (unat r) div associativity ?p = getId ?p addr"
    by (rule word_div_in_set)
qed

lemma load_effect_evolves:
  assumes "load_effect addr c c'"
  shows "evolves c c'" and "sameCounters (statistics (st c)) (statistics (st c'))"
proof -
  let ?p = "policy (st c)"
  let ?idx = "getId ?p addr"
  from assms obtain r rb bytes where
    r: "getReplacementBlockId c (?idx * associativity ?p) ((?idx + 1) * associativity ?p) = Inr r"
    and len: "length bytes = unat (blockSize ?p)"
    and st: "st c' = installed addr r rb bytes (st c)"
    and v: "rel_option evolves (victimCache c) (victimCache c')"
    unfolding load_effect_def Let_def by blast
  show "sameCounters (statistics (st c)) (statistics (st c'))"
    by (simp add: st sameCounters_def installed_def)
  show "evolves c c'"
  proof (rule evolvesI)
    show "length (blocks (st c')) = length (blocks (st c)) \<and>
           (\<forall>i<length (blocks (st c)). block_ok ?p i (blocks (st c') ! i))"
      if ok: "cache_ok c"
    proof -
      note rs = replaced_in_set [OF ok r]
      from ok have "\<forall>i<length (blocks (st c)). block_ok ?p i (blocks (st c) ! i)"
        by (simp add: cache_ok_eq [of c])
      with rs(3,4) len show ?thesis
        by (auto simp: st installed_def nth_list_update block_ok_def)
    qed
  qed (simp_all add: st v ownBalanced_def installed_def)
qed

lemma Cache_getByte_sound:
  assumes "load_sound load"
  shows "getByte_sound (Cache_getByte load)"
  unfolding getByte_sound_def
proof (intro allI impI)
  fix addr c w val c' w'
  assume run: "Cache_getByte load addr c w = Inr (val, c', w')"
  let ?c1 = "map_st (\<lambda>s. s\<lparr>referenceCounter := referenceCounter s + 1\<rparr>) c"
  have e1: "evolves c ?c1" by (rule bump_referenceCounter_evolves)
  have s1: "statistics (st ?c1) = statistics (st c)" by simp
  from run obtain blockId where b: "getBlockId ?c1 addr = Inr blockId"
    by (auto simp: Cache_getByte_def Let_def split: sum.splits)
  show "evolves c c' \<and> evolvesW w w' \<and> sameCounters (statistics (st c)) (statistics (st c'))"
  proof (cases "blockId \<noteq> - 1")
    case True
    with run b have rb: "readBlockByte blockId addr ?c1 = Inr (val, c')" and w: "w' = w"
      by (auto simp: Cache_getByte_def Let_def split: sum.splits)
    from readBlockByte_evolves [OF rb] e1 s1 w show ?thesis
      by (auto intro: evolves_trans)
  next
    case False
    with run b obtain c2 blockId2 where l: "load addr True ?c1 w = Inr (c2, w')"
      and rb: "readBlockByte blockId2 addr c2 = Inr (val, c')"
      by (auto simp: Cache_getByte_def Let_def split: sum.splits if_splits)
    from load_soundD [OF assms l] have le: "load_effect addr ?c1 c2" and ew: "evolvesW w w'"
      by simp_all
    note e2 = load_effect_evolves [OF le]
    note e3 = readBlockByte_evolves [OF rb]
    from e1 e2(1) e3(1) have "evolves c c'"
      by (blast intro: evolves_trans)
    moreover from e2(2) e3(2) s1 have "sameCounters (statistics (st c)) (statistics (st c'))"
      by simp
    ultimately show ?thesis using ew by simp
  qed
qed

lemma Cache_setByte_sound:
  assumes "load_sound load"
  shows "setByte_sound (Cache_setByte load)"
  unfolding setByte_sound_def
proof (intro allI impI)
  fix addr val c w c' w'
  assume run: "Cache_setByte load addr val c w = Inr (c', w')"
  let ?c1 = "map_st (\<lambda>s. s\<lparr>referenceCounter := referenceCounter s + 1\<rparr>) c"
  have e1: "evolves c ?c1" by (rule bump_referenceCounter_evolves)
  have s1: "statistics (st ?c1) = statistics (st c)" by simp
  from run obtain blockId where b: "getBlockId ?c1 addr = Inr blockId"
    by (auto simp: Cache_setByte_def Let_def split: sum.splits)
  show "evolves c c' \<and> evolvesW w w' \<and> sameCounters (statistics (st c)) (statistics (st c'))"
  proof (cases "blockId \<noteq> - 1")
    case True
    with run b have rb: "writeBlockByte blockId addr val ?c1 = Inr c'" and w: "w' = w"
      by (auto simp: Cache_setByte_def Let_def split: sum.splits)
    from writeBlockByte_evolves [OF rb] e1 s1 w show ?thesis
      by (auto intro: evolves_trans)
  next
    case False
    with run b obtain c2 blockId2 where l: "load addr False ?c1 w = Inr (c2, w')"
      and rb: "writeBlockByte blockId2 addr val c2 = Inr c'"
      by (auto simp: Cache_setByte_def Let_def split: sum.splits if_splits)
    from load_soundD [OF assms l] have le: "load_effect addr ?c1 c2" and ew: "evolvesW w w'"
      by simp_all
    note e2 = load_effect_evolves [OF le]
    note e3 = writeBlockByte_evolves [OF rb]
    from e1 e2(1) e3(1) have "evolves c c'"
      by (blast intro: evolves_trans)
    moreover from e2(2) e3(2) s1 have "sameCounters (statistics (st c)) (statistics (st c'))"
      by simp
    ultimately show ?thesis using ew by simp
  qed
qed

lemma sameHeader_refl [simp]: "sameHeader b b"
  by (simp add: sameHeader_def)

lemma sameHeader_setDataAt:
  assumes "sameHeader nb b" and "setDataAt k val b = Inr b'"
  shows "sameHeader nb b'"
  using assms by (auto simp: sameHeader_def setDataAt_def split: if_splits)

lemma rel_option_evolves_trans:
  "rel_option evolves a b \<Longrightarrow> rel_option evolves b c \<Longrightarrow> rel_option evolves a c"
  by (cases a; cases b; cases c) (auto intro: evolves_trans)

lemma evolvesW_Cons:
  "evolves l l' \<Longrightarrow> evolvesW (ls, m) (ls', m') \<Longrightarrow> evolvesW (l # ls, m) (l' # ls', m')"
  by (simp add: evolvesW_def)

lemma probe_evolves:
  "evolves x (countLookup hit (map_statistics (countAccess isRead) x))"
  by (rule evolvesI)
     (auto simp: countLookup_def countAccess_def countHit_def countMiss_def ownBalanced_def
        option.rel_refl cache_ok_eq [of x] algebra_simps)

lemma probe_policy [simp]:
  "policy (st (countLookup hit x)) = policy (st x)"
  by (simp add: countLookup_def)

lemma copyBlockFrom_sound:
  assumes gs: "getByte_sound getB"
    and run: "copyBlockFrom getB a sz nb x w = Inr (nb', x', w')"
  shows "evolves x x'" and "evolvesW w w'"
    and "sameCounters (statistics (st x)) (statistics (st x'))" and "sameHeader nb nb'"
proof -
  let ?P = "\<lambda>(b, y, u). evolves x y \<and> evolvesW w u \<and>
               sameCounters (statistics (st x)) (statistics (st y)) \<and> sameHeader nb b"
  have "?P (nb', x', w')"
  proof (rule for_loop_rule [OF run [unfolded copyBlockFrom_def]], goal_cases)
    case 1
    show ?case by simp
  next
    case (2 j s s')
    note P = 2(1) and step = 2(2)
    obtain b y u where s: "s = (b, y, u)" by (cases s)
    obtain b' y' u' where s': "s' = (b', y', u')" by (cases s')
    from step s s' obtain val where g: "getB j y u = Inr (val, y', u')"
      and d: "setDataAt (j - a) val b = Inr b'"
      by (auto split: sum.splits)
    note e = getByte_soundD [OF gs g]
    from P s e sameHeader_setDataAt [OF _ d] show ?case
      by (auto simp: s' intro: evolves_trans evolvesW_trans sameCounters_trans)
  qed
  then show "evolves x x'" and "evolvesW w w'"
    and "sameCounters (statistics (st x)) (statistics (st x'))" and "sameHeader nb nb'"
    by simp_all
qed

lemma copyBlockFromMemory_header:
  assumes "copyBlockFromMemory m a sz nb = Inr nb'"
  shows "sameHeader nb nb'"
  by (rule for_loop_rule [OF assms [unfolded copyBlockFromMemory_def], where P = "sameHeader nb"])
     (auto intro: sameHeader_setDataAt)

lemma storeBlockInto_sound:
  assumes ss: "setByte_sound setB"
    and run: "storeBlockInto setB a b x w = Inr (x', w')"
  shows "evolves x x'" and "evolvesW w w'"
    and "sameCounters (statistics (st x)) (statistics (st x'))"
proof -
  let ?P = "\<lambda>(y, u). evolves x y \<and> evolvesW w u \<and>
               sameCounters (statistics (st x)) (statistics (st y))"
  have "?P (x', w')"
  proof (rule for_loop_rule [OF run [unfolded storeBlockInto_def]], goal_cases)
    case 1
    show ?case by simp
  next
    case (2 j s s')
    note P = 2(1) and step = 2(2)
    obtain y u where s: "s = (y, u)" by (cases s)
    obtain y' u' where s': "s' = (y', u')" by (cases s')
    from step s s' obtain val where g: "setB (a + j) val y u = Inr (y', u')"
      by (auto split: sum.splits)
    note e = setByte_soundD [OF ss g]
    from P s e show ?case
      by (auto simp: s' intro: evolves_trans evolvesW_trans sameCounters_trans)
  qed
  then show "evolves x x'" and "evolvesW w w'"
    and "sameCounters (statistics (st x)) (statistics (st x'))"
    by simp_all
qed

lemma setInvalid_evolves:
  assumes "setInvalid a x = Inr x'"
  shows "evolves x x'" and "statistics (st x') = statistics (st x)"
proof -
  have k: "keepsShape (\<lambda>b. b\<lparr>valid := False\<rparr>)"
    by (simp add: keepsShape_def)
  from assms show "evolves x x'" and "statistics (st x') = statistics (st x)"
    by (auto simp: setInvalid_def split: sum.splits if_splits
        dest: updateBlock_evolves [OF _ k])
qed

lemma Cache_writeBlockToLowerLevel_sound:
  assumes ss: "setByte_sound setB"
  shows "writeBlock_sound (Cache_writeBlockToLowerLevel setB)"
  unfolding writeBlock_sound_def
proof (intro allI impI)
  fix b c w c' w'
  assume run: "Cache_writeBlockToLowerLevel setB b c w = Inr (c', w')"
  let ?a = "getAddr (policy (st c)) b"
  show "st c' = st c \<and> rel_option evolves (victimCache c) (victimCache c') \<and> evolvesW w w'"
  proof (cases "enabledVictim c")
    case (Some v)
    then have v: "victimCache c = Some v"
      by (simp add: enabledVictim_def split: if_splits)
    from run Some obtain v' where s: "storeBlockInto setB ?a b v w = Inr (v', w')"
      and c': "c' = Cache (st c) (Some v')"
      by (auto simp: Cache_writeBlockToLowerLevel_def Let_def split: sum.splits)
    from storeBlockInto_sound [OF ss s] v c' show ?thesis by simp
  next
    case None
    obtain ls m where w: "w = (ls, m)" by (cases w)
    show ?thesis
    proof (cases ls)
      case Nil
      with run w None have "c' = c" "fst w' = []"
        by (auto simp: Cache_writeBlockToLowerLevel_def Let_def split: sum.splits)
      with w Nil show ?thesis
        by (simp add: option.rel_refl evolvesW_def)
    next
      case (Cons l rest)
      with run w None obtain l' rest' m' where
        s: "storeBlockInto setB ?a b l (rest, m) = Inr (l', rest', m')"
        and c': "c' = c" and w': "w' = (l' # rest', m')"
        by (auto simp: Cache_writeBlockToLowerLevel_def Let_def split: sum.splits)
      from storeBlockInto_sound [OF ss s] c' w' w Cons show ?thesis
        by (simp add: option.rel_refl evolvesW_Cons)
    qed
  qed
qed

lemma probeVictimCache_sound:
  assumes gs: "getByte_sound getB"
    and run: "probeVictimCache getB a isRead nb c w = Inr (rfv, nb', c', w')"
  shows "st c' = st c" and "rel_option evolves (victimCache c) (victimCache c')"
    and "evolvesW w w'" and "sameHeader nb nb'"
proof -
  show "st c' = st c"
    using run by (auto simp: probeVictimCache_def Let_def split: if_splits option.splits sum.splits)
  have "rel_option evolves (victimCache c) (victimCache c') \<and> evolvesW w w' \<and> sameHeader nb nb'"
  proof (cases "enableVictimCache (st c)")
    case False
    with run show ?thesis
      by (simp add: probeVictimCache_def option.rel_refl)
  next
    case True
    with run obtain v where v: "victimCache c = Some v"
      by (auto simp: probeVictimCache_def split: option.splits)
    let ?v1 = "map_statistics (countAccess isRead) v"
    from run True v obtain hit where hit: "inCache ?v1 a = Inr hit"
      by (auto simp: probeVictimCache_def Let_def split: sum.splits)
    have e1: "evolves v (countLookup hit ?v1)" by (rule probe_evolves)
    show ?thesis
    proof (cases hit)
      case False
      with run True v hit have "c' = Cache (st c) (Some (countLookup False ?v1))"
        "w' = w" "nb' = nb"
        by (auto simp: probeVictimCache_def Let_def)
      with e1 False v show ?thesis by simp
    next
      case h: True
      with run True v hit obtain v2 v3 where
        cp: "copyBlockFrom getB a (blockSize (policy (st c))) nb (countLookup True ?v1) w =
               Inr (nb', v2, w')"
        and si: "setInvalid a v2 = Inr v3"
        and c': "c' = Cache (st c) (Some v3)"
        by (auto simp: probeVictimCache_def Let_def split: sum.splits)
      note e2 = copyBlockFrom_sound [OF gs cp]
      note e3 = setInvalid_evolves [OF si]
      from e1 h have "evolves v (countLookup True ?v1)"
        by simp
      with e2(1) e3(1) have "evolves v v3"
        by (blast intro: evolves_trans)
      with e2 v c' show ?thesis by simp
    qed
  qed
  then show "rel_option evolves (victimCache c) (victimCache c')"
    and "evolvesW w w'" and "sameHeader nb nb'" by simp_all
qed

lemma fetchFromLowerLevel_sound:
  assumes gs: "getByte_sound getB" and ls: "load_sound load"
    and run: "fetchFromLowerLevel getB load a isRead sz nb w = Inr (nb', w')"
  shows "evolvesW w w'" and "sameHeader nb nb'"
proof -
  obtain lows m where w: "w = (lows, m)" by (cases w)
  have "evolvesW w w' \<and> sameHeader nb nb'"
  proof (cases lows)
    case Nil
    with run w show ?thesis
      by (auto simp: fetchFromLowerLevel_def evolvesW_def split: sum.splits
          dest: copyBlockFromMemory_header)
  next
    case (Cons l rest)
    let ?l1 = "map_statistics (countAccess isRead) l"
    from run w Cons obtain hit l2 w2 l3 rest3 m3 where
      hit: "inCache ?l1 a = Inr hit"
      and l2: "(if hit then Inr (countLookup True ?l1, rest, m)
               else load a isRead (countLookup False ?l1) (rest, m)) = Inr (l2, w2)"
      and cp: "copyBlockFrom getB a sz nb l2 w2 = Inr (nb', l3, rest3, m3)"
      and w': "w' = (l3 # rest3, m3)"
      by (auto simp: fetchFromLowerLevel_def Let_def split: sum.splits)
    have e1: "evolves l (countLookup hit ?l1)" by (rule probe_evolves)
    have e2: "evolves l l2 \<and> evolvesW (rest, m) w2"
    proof (cases hit)
      case True
      with l2 e1 show ?thesis by auto
    next
      case False
      with l2 have "load a isRead (countLookup False ?l1) (rest, m) = Inr (l2, w2)" by simp
      from load_soundD [OF ls this] e1 False show ?thesis
        by (auto dest: load_effect_evolves(1) intro: evolves_trans)
    qed
    note e3 = copyBlockFrom_sound [OF gs cp]
    from e2 e3 have "evolves l l3" "evolvesW (rest, m) (rest3, m3)"
      by (blast intro: evolves_trans evolvesW_trans)+
    with e3(4) w w' Cons show ?thesis
      by (simp add: evolvesW_Cons)
  qed
  then show "evolvesW w w'" and "sameHeader nb nb'" by simp_all
qed

lemma evictBlock_sound:
  assumes ss: "setByte_sound setB" and ws: "writeBlock_sound wb"
    and run: "evictBlock setB wb rb c w = Inr (c', w')"
  shows "st c' = (st c)\<lparr>statistics := (statistics (st c))
           \<lparr>totalCycles := totalCycles (statistics (st c)) +
              (if valid rb \<and> modified rb then of_nat (unat (missLatency (policy (st c)))) else 0)\<rparr>\<rparr>"
    and "rel_option evolves (victimCache c) (victimCache c')" and "evolvesW w w'"
proof -
  have "st c' = (st c)\<lparr>statistics := (statistics (st c))
           \<lparr>totalCycles := totalCycles (statistics (st c)) +
              (if valid rb \<and> modified rb then of_nat (unat (missLatency (policy (st c)))) else 0)\<rparr>\<rparr>
        \<and> rel_option evolves (victimCache c) (victimCache c') \<and> evolvesW w w'"
  proof (cases "valid rb")
    case False
    with run show ?thesis
      by (simp add: evictBlock_def option.rel_refl)
  next
    case v: True
    show ?thesis
    proof (cases "modified rb")
      case True
      with run v obtain c1 where wb: "wb rb c w = Inr (c1, w')"
        and c': "c' = map_statistics
                   (\<lambda>s. s\<lparr>totalCycles := totalCycles s +
                                      of_nat (unat (missLatency (policy (st c))))\<rparr>) c1"
        by (auto simp: evictBlock_def split: sum.splits)
      from writeBlock_soundD [OF ws wb] c' v True show ?thesis
        by simp
    next
      case False
      show ?thesis
      proof (cases "enabledVictim c")
        case (Some x)
        then have x: "victimCache c = Some x"
          by (simp add: enabledVictim_def split: if_splits)
        from run v False Some obtain x' where
          s: "storeBlockInto setB (getAddr (policy (st c)) rb) rb x w = Inr (x', w')"
          and c': "c' = Cache (st c) (Some x')"
          by (auto simp: evictBlock_def split: sum.splits)
        from storeBlockInto_sound [OF ss s] x c' False show ?thesis by simp
      next
        case None
        with run v False have "c' = c" "w' = w"
          by (auto simp: evictBlock_def)
        with False show ?thesis
          by (simp add: option.rel_refl)
      qed
    qed
  qed
  then show "st c' = (st c)\<lparr>statistics := (statistics (st c))
           \<lparr>totalCycles := totalCycles (statistics (st c)) +
              (if valid rb \<and> modified rb then of_nat (unat (missLatency (policy (st c)))) else 0)\<rparr>\<rparr>"
    and "rel_option evolves (victimCache c) (victimCache c')" and "evolvesW w w'"
    by simp_all
qed

lemma Cache_loadBlockFromLowerLevel_sound:
  assumes gs: "getByte_sound getB" and ss: "setByte_sound setB"
    and ls: "load_sound load" and ws: "writeBlock_sound wb"
  shows "load_sound (Cache_loadBlockFromLowerLevel getB setB load wb)"
  unfolding load_sound_def
proof (intro allI impI)
  fix addr isRead c w c' w'
  assume run: "Cache_loadBlockFromLowerLevel getB setB load wb addr isRead c w = Inr (c', w')"
  let ?p = "policy (st c)"
  let ?idx = "getId ?p addr"
  let ?nb = "\<lparr>valid = True, modified = False, tag = getTag ?p addr, id_blk = ?idx,
              size_blk = blockSize ?p, lastReference = referenceCounter (st c),
              createdAt = referenceCounter (st c),
              data = replicate (unat (blockSize ?p)) 0\<rparr>"
  let ?a = "addr AND NOT (push_bit (unat (log2i (blockSize ?p))) 1 - 1)"
  from run obtain r rb rfv nb1 c1 w1 nb2 w2 c3 where
    r: "getReplacementBlockId c (?idx * associativity ?p) ((?idx + 1) * associativity ?p) = Inr r"
    and rb: "blockAt (blocks (st c)) r = Inr rb"
    and pv: "probeVictimCache getB ?a isRead ?nb c w = Inr (rfv, nb1, c1, w1)"
    and ff: "(if \<not> rfv then fetchFromLowerLevel getB load ?a isRead (blockSize ?p) nb1 w1
              else Inr (nb1, w1)) = Inr (nb2, w2)"
    and ev: "evictBlock setB wb rb c1 w2 = Inr (c3, w')"
    and ub: "updateBlock r (\<lambda>b. nb2) c3 = Inr c'"
    unfolding Cache_loadBlockFromLowerLevel_def Let_def
    by (auto split: sum.splits)
  note p = probeVictimCache_sound [OF gs pv]
  have f: "evolvesW w1 w2 \<and> sameHeader nb1 nb2"
  proof (cases rfv)
    case True
    with ff show ?thesis by simp
  next
    case False
    with ff have "fetchFromLowerLevel getB load ?a isRead (blockSize ?p) nb1 w1 = Inr (nb2, w2)"
      by simp
    from fetchFromLowerLevel_sound [OF gs ls this] show ?thesis by simp
  qed
  note e = evictBlock_sound [OF ss ws ev]
  note u = updateBlock_Inr [OF ub]
  have hdr: "sameHeader ?nb nb2"
    using p(4) f by (simp add: sameHeader_def)
  have len: "length (data nb2) = unat (blockSize ?p)"
    using hdr by (simp add: sameHeader_def)
  have blk: "\<lparr>valid = True, modified = False, tag = getTag ?p addr, id_blk = ?idx,
              size_blk = blockSize ?p, lastReference = referenceCounter (st c),
              createdAt = referenceCounter (st c), data = data nb2\<rparr> = nb2"
    using hdr by (cases nb2) (simp add: sameHeader_def)
  have st: "st c' = installed addr r rb (data nb2) (st c)"
    by (simp add: u(2) e(1) p(1) installed_def blk)
  have v: "rel_option evolves (victimCache c) (victimCache c')"
    using p(2) e(2) u(3) by (auto intro: rel_option_evolves_trans)
  have w: "evolvesW w w'"
    using p(3) f e(3) by (blast intro: evolvesW_trans)
  from r rb len st v w
  show "load_effect addr c c' \<and> evolvesW w w'"
    unfolding load_effect_def Let_def by blast
qed

lemma methods_sound:
  "getByte_sound (getByte n :: ('n::comm_ring_1, 'c::comm_ring_1) getByte_t) \<and>
   setByte_sound (setByte n :: ('n, 'c) setByte_t) \<and>
   load_sound (loadBlockFromLowerLevel n :: ('n, 'c) load_t) \<and>
   writeBlock_sound (writeBlockToLowerLevel n :: ('n, 'c) writeBlock_t)"
proof (induction n)
  case 0
  show ?case
    by (simp add: getByte_sound_def setByte_sound_def load_sound_def writeBlock_sound_def)
next
  case (Suc n)
  then have g: "getByte_sound (getByte n :: ('n, 'c) getByte_t)"
    and s: "setByte_sound (setByte n :: ('n, 'c) setByte_t)"
    and l: "load_sound (loadBlockFromLowerLevel n :: ('n, 'c) load_t)"
    and w: "writeBlock_sound (writeBlockToLowerLevel n :: ('n, 'c) writeBlock_t)"
    by simp_all
  have "getByte_sound (getByte (Suc n) :: ('n, 'c) getByte_t)"
    using Cache_getByte_sound [OF l] by simp
  moreover have "setByte_sound (setByte (Suc n) :: ('n, 'c) setByte_t)"
    using Cache_setByte_sound [OF l] by simp
  moreover have "load_sound (loadBlockFromLowerLevel (Suc n) :: ('n, 'c) load_t)"
    using Cache_loadBlockFromLowerLevel_sound [OF g s l w] by simp
  moreover have "writeBlock_sound (writeBlockToLowerLevel (Suc n) :: ('n, 'c) writeBlock_t)"
    using Cache_writeBlockToLowerLevel_sound [OF s] by simp
  ultimately show ?case by simp
qed

lemmas getByte_evolves = getByte_soundD [OF methods_sound [THEN conjunct1]]

lemmas setByte_evolves = setByte_soundD [OF methods_sound [THEN conjunct2, THEN conjunct1]]

lemmas load_evolves =
  load_soundD [OF methods_sound [THEN conjunct2, THEN conjunct2, THEN conjunct1]]

lemmas writeBlock_evolves =
  writeBlock_soundD [OF methods_sound [THEN conjunct2, THEN conjunct2, THEN conjunct2]]

lemma fetch_effect:
  assumes "fetch n addr c w = Inr (c', w')"
  shows "(inCache c addr = Inr True \<and> c' = c \<and> w' = w) \<or>
         (inCache c addr = Inr False \<and> load_effect addr c c')"
    and "evolvesW w w'"
  using assms
  by (auto simp: fetch_def inCache_def split: sum.splits if_splits dest: load_evolves)

lemma fetch_evolves:
  assumes "fetch n addr c w = Inr (c', w')"
  shows "evolves c c'" and "evolvesW w w'"
    and "sameCounters (statistics (st c)) (statistics (st c'))"
  using fetch_effect [OF assms] by (auto dest: load_effect_evolves)

lemma inCache_map_statistics [simp]: "inCache (map_statistics f c) addr = inCache c addr"
  by (simp add: inCache_def getBlockId_def Let_def)

lemma inCache_countLookup [simp]: "inCache (countLookup hit c) addr = inCache c addr"
  by (simp add: countLookup_def)

lemma countAccess_eq:
  "countAccess True = (\<lambda>s. s\<lparr>numRead := numRead s + 1\<rparr>)"
  "countAccess False = (\<lambda>s. s\<lparr>numWrite := numWrite s + 1\<rparr>)"
  by (simp_all add: fun_eq_iff countAccess_def)

lemma read_effect:
  assumes "read n addr c w = Inr (val, c', w')"
  shows "\<exists>hit. inCache c addr = Inr hit \<and>
           getByte n addr (countLookup hit (map_statistics (countAccess True) c)) w =
             Inr (val, c', w')"
  using assms
  by (auto simp: read_def Let_def countAccess_eq split: sum.splits)

lemma write_effect:
  assumes "write_c n addr val c w = Inr (c', w')"
  shows "\<exists>hit. inCache c addr = Inr hit \<and>
           setByte n addr val (countLookup hit (map_statistics (countAccess False) c)) w =
             Inr (c', w')"
  using assms
  by (auto simp: write_c_def Let_def countAccess_eq split: sum.splits)

lemma read_evolves:
  assumes "read n addr c w = Inr (val, c', w')"
  shows "evolves c c'" and "evolvesW w w'"
proof -
  from read_effect [OF assms] obtain hit where
    g: "getByte n addr (countLookup hit (map_statistics (countAccess True) c)) w =
          Inr (val, c', w')" by blast
  from getByte_evolves [OF g] probe_evolves [of c hit True]
  show "evolves c c'" and "evolvesW w w'"
    by (blast intro: evolves_trans)+
qed

lemma write_evolves:
  assumes "write_c n addr val c w = Inr (c', w')"
  shows "evolves c c'" and "evolvesW w w'"
proof -
  from write_effect [OF assms] obtain hit where
    g: "setByte n addr val (countLookup hit (map_statistics (countAccess False) c)) w =
          Inr (c', w')" by blast
  from setByte_evolves [OF g] probe_evolves [of c hit False]
  show "evolves c c'" and "evolvesW w w'"
    by (blast intro: evolves_trans)+
qed

lemma getBlockId_from_find:
  assumes "unat e \<le> length bs"
    and "\<forall>k. unat i \<le> k \<and> k < unat e \<longrightarrow> id_blk (bs ! k) = idx"
  shows "getBlockId_from bs tg idx i e =
           Inr (case List.find (\<lambda>k. valid (bs ! k) \<and> tag (bs ! k) = tg) [unat i..<unat e] of
                  None \<Rightarrow> - 1 | Some k \<Rightarrow> of_nat k)"
  using assms
proof (induction bs tg idx i e rule: getBlockId_from.induct)
  case (1 bs tg idx i e)
  show ?case
  proof (cases "i < e")
    case True
    then have lt: "unat i < unat e" by (simp add: word_less_nat_alt)
    with "1.prems" have at: "blockAt bs i = Inr (bs ! unat i)"
      by (simp add: blockAt_in_range)
    have upt: "[unat i..<unat e] = unat i # [unat (i + 1)..<unat e]"
      using lt True by (simp add: upt_conv_Cons word_succ_measure(1))
    from "1.prems"(2) lt have id: "id_blk (bs ! unat i) = idx" by simp
    show ?thesis
    proof (cases "valid (bs ! unat i) \<and> tag (bs ! unat i) = tg")
      case True
      with \<open>i < e\<close> at id show ?thesis
        by (subst getBlockId_from.simps) (simp add: upt)
    next
      case False
      have "\<forall>k. unat (i + 1) \<le> k \<and> k < unat e \<longrightarrow> id_blk (bs ! k) = idx"
        using "1.prems"(2) True by (simp add: word_succ_measure(1))
      from "1.IH" [OF True at _ False "1.prems"(1) this] id
      have "getBlockId_from bs tg idx (i + 1) e =
           Inr (case List.find (\<lambda>k. valid (bs ! k) \<and> tag (bs ! k) = tg) [unat (i + 1)..<unat e] of
                  None \<Rightarrow> - 1 | Some k \<Rightarrow> of_nat k)"
        by simp
      with True at id False show ?thesis
        by (subst getBlockId_from.simps) (auto simp: upt)
    qed
  next
    case False
    then have "unat e \<le> unat i" by (simp add: word_less_nat_alt)
    with False show ?thesis
      by (subst getBlockId_from.simps) simp
  qed
qed

text \<open>The lookup in a well-formed cache: the first valid slot of the set with the tag.\<close>

lemma getBlockId_ok:
  fixes c :: "('n, 'c) cache" and addr :: u32
  assumes "cache_ok c"
  defines "p \<equiv> policy (st c)"
  defines "lo \<equiv> unat (getId (policy (st c)) addr) * unat (associativity (policy (st c)))"
  shows "getBlockId c addr =
           Inr (case List.find (\<lambda>k. valid (blocks (st c) ! k) \<and>
                                     tag (blocks (st c) ! k) = getTag p addr)
                       [lo..<lo + unat (associativity p)] of
                  None \<Rightarrow> - 1 | Some k \<Rightarrow> of_nat k)"
proof -
  from assms(1) have pok: "policy_ok p"
    and len: "length (blocks (st c)) = unat (blockNum p)"
    and blk: "\<forall>i<length (blocks (st c)). block_ok p i (blocks (st c) ! i)"
    by (simp_all add: cache_ok_eq [of c] p_def)
  note sr = set_range [OF pok, of addr]
  have e: "unat ((getId p addr + 1) * associativity p) \<le> length (blocks (st c))"
    using sr(2,3) len by simp
  have ids: "\<forall>k. unat (getId p addr * associativity p) \<le> k \<and>
                 k < unat ((getId p addr + 1) * associativity p) \<longrightarrow>
                 id_blk (blocks (st c) ! k) = getId p addr"
  proof (intro allI impI)
    fix k
    assume k: "unat (getId p addr * associativity p) \<le> k \<and>
               k < unat ((getId p addr + 1) * associativity p)"
    then have kl: "k < length (blocks (st c))" using e by simp
    then have k32: "k < 2 ^ 32"
      using len unsigned_less [of "blockNum p", where 'a = nat] by simp
    then have uk: "unat (of_nat k :: u32) = k" by (simp add: unat_of_nat)
    from blk kl have "id_blk (blocks (st c) ! k) = of_nat k div associativity p"
      by (simp add: block_ok_def)
    also have "of_nat k div associativity p = getId p addr"
      using word_div_in_set [of "getId p addr" "associativity p" "of_nat k"] k
      by (simp add: uk sr(1,2))
    finally show "id_blk (blocks (st c) ! k) = getId p addr" .
  qed
  from getBlockId_from_find [OF e ids] show ?thesis
    by (simp add: getBlockId_def Let_def p_def [symmetric] sr(1,2) lo_def)
qed

lemma of_nat_not_sentinel:
  assumes "k < unat (n :: u32)"
  shows "(of_nat k :: u32) \<noteq> - 1" and "unat (of_nat k :: u32) = k"
proof -
  have n: "unat n < 2 ^ 32"
    using unsigned_less [of n, where 'a = nat] by simp
  with assms show u: "unat (of_nat k :: u32) = k"
    by (simp add: unat_of_nat)
  have "(of_nat k :: u32) < n"
    using u assms by (simp add: word_less_nat_alt)
  moreover have "n \<le> - 1"
    by simp
  ultimately show "(of_nat k :: u32) \<noteq> - 1"
    by auto
qed

lemma getBlockId_from_cong:
  assumes "length bs' = length bs"
    and "\<forall>k<length bs. valid (bs' ! k) = valid (bs ! k) \<and> tag (bs' ! k) = tag (bs ! k) \<and>
           id_blk (bs' ! k) = id_blk (bs ! k)"
  shows "getBlockId_from bs' tg idx i e = getBlockId_from bs tg idx i e"
  using assms
proof (induction bs tg idx i e rule: getBlockId_from.induct)
  case (1 bs tg idx i e)
  show ?case
  proof (cases "i < e \<and> unat i < length bs")
    case True
    then have at: "blockAt bs i = Inr (bs ! unat i)" "blockAt bs' i = Inr (bs' ! unat i)"
      using "1.prems"(1) by (simp_all add: blockAt_def)
    from "1.prems"(2) True have same: "valid (bs' ! unat i) = valid (bs ! unat i)"
      "tag (bs' ! unat i) = tag (bs ! unat i)" "id_blk (bs' ! unat i) = id_blk (bs ! unat i)"
      by simp_all
    show ?thesis
    proof (cases "id_blk (bs ! unat i) \<noteq> idx \<or> (valid (bs ! unat i) \<and> tag (bs ! unat i) = tg)")
      case stop: True
      with True at same show ?thesis
        by (subst getBlockId_from.simps, subst (2) getBlockId_from.simps) auto
    next
      case False
      with "1.IH" [OF _ at(1) _ _ "1.prems"] True
      have "getBlockId_from bs' tg idx (i + 1) e = getBlockId_from bs tg idx (i + 1) e"
        by auto
      with True at same False show ?thesis
        by (subst getBlockId_from.simps, subst (2) getBlockId_from.simps) auto
    qed
  next
    case False
    with "1.prems"(1) show ?thesis
      by (subst getBlockId_from.simps, subst (2) getBlockId_from.simps)
         (auto simp: blockAt_def)
  qed
qed

lemma getBlockId_updateBlock:
  assumes "updateBlock i f c = Inr c'" and "keepsLookup f"
  shows "getBlockId c' addr = getBlockId c addr"
proof -
  note u = updateBlock_Inr [OF assms(1)]
  let ?bs = "blocks (st c)"
  let ?bs' = "?bs[unat i := f (?bs ! unat i)]"
  from assms(2) have k: "valid (f x) = valid x" "tag (f x) = tag x" "id_blk (f x) = id_blk x"
    for x unfolding keepsLookup_def by blast+
  have same: "\<forall>k<length ?bs. valid (?bs' ! k) = valid (?bs ! k) \<and>
                tag (?bs' ! k) = tag (?bs ! k) \<and> id_blk (?bs' ! k) = id_blk (?bs ! k)"
  proof (intro allI impI)
    fix j assume j: "j < length ?bs"
    show "valid (?bs' ! j) = valid (?bs ! j) \<and>
          tag (?bs' ! j) = tag (?bs ! j) \<and> id_blk (?bs' ! j) = id_blk (?bs ! j)"
    proof (cases "j = unat i")
      case True
      with j show ?thesis by (simp only: nth_list_update_eq k)
    next
      case False
      then show ?thesis by simp
    qed
  qed
  have len: "length ?bs' = length ?bs" by simp
  have "getBlockId_from ?bs' tg idx b e = getBlockId_from ?bs tg idx b e" for tg idx b e
    by (rule getBlockId_from_cong [OF len same])
  moreover have "blocks (st c') = ?bs'" and "policy (st c') = policy (st c)"
    by (simp_all add: u(2))
  ultimately show ?thesis
    by (simp only: getBlockId_def Let_def)
qed

lemma getBlockId_readBlockByte:
  assumes "readBlockByte blockId a c = Inr (val, c')"
  shows "getBlockId c' addr = getBlockId c addr"
proof -
  from assms have
    u: "updateBlock blockId (\<lambda>b. b\<lparr>lastReference := referenceCounter (st c)\<rparr>) c = Inr c'"
    by (auto simp: readBlockByte_def split: sum.splits)
  show ?thesis
    by (rule getBlockId_updateBlock [OF u]) (simp add: keepsLookup_def)
qed


text \<open>Whenever \<^verbatim>\<open>getByte\<close> or \<^verbatim>\<open>setByte\<close> returns, the address is in the cache.\<close>

lemma Cache_getByte_inCache:
  assumes "Cache_getByte load addr c w = Inr (val, c', w')"
  shows "inCache c' addr = Inr True"
proof -
  let ?c1 = "map_st (\<lambda>s. s\<lparr>referenceCounter := referenceCounter s + 1\<rparr>) c"
  from assms obtain x blockId where rb: "readBlockByte blockId addr x = Inr (val, c')"
    and g: "getBlockId x addr = Inr blockId" and ne: "blockId \<noteq> - 1"
    by (auto simp: Cache_getByte_def Let_def split: sum.splits if_splits)
  from getBlockId_readBlockByte [OF rb, of addr] g ne show ?thesis
    by (simp add: inCache_def)
qed


lemma getByte_inCache:
  assumes "getByte n addr c w = Inr (val, c', w')"
  shows "inCache c' addr = Inr True"
  using assms by (cases n) (auto dest: Cache_getByte_inCache)


text \<open>After a load into a well-formed cache the address is in the cache.\<close>

lemma load_effect_inCache:
  assumes ok: "cache_ok c" and le: "load_effect addr c c'"
  shows "inCache c' addr = Inr True"
proof -
  let ?p = "policy (st c)"
  let ?idx = "getId ?p addr"
  let ?lo = "unat ?idx * unat (associativity ?p)"
  from le obtain r rb bytes where
    r: "getReplacementBlockId c (?idx * associativity ?p) ((?idx + 1) * associativity ?p) = Inr r"
    and st: "st c' = installed addr r rb bytes (st c)"
    unfolding load_effect_def Let_def by blast
  note rs = replaced_in_set [OF ok r]
  from load_effect_evolves(1) [OF le] ok have ok': "cache_ok c'"
    by (simp add: evolves_def)
  have pol: "policy (st c') = ?p" by (simp add: st installed_def)
  let ?P = "\<lambda>k. valid (blocks (st c') ! k) \<and> tag (blocks (st c') ! k) = getTag ?p addr"
  have "?P (unat r)"
    using rs(3) by (simp add: st installed_def)
  moreover have "unat r \<in> set [?lo..<?lo + unat (associativity ?p)]"
    using rs(1,2) by simp
  ultimately have "List.find ?P [?lo..<?lo + unat (associativity ?p)] \<noteq> None"
    by (auto simp: find_None_iff)
  then obtain k where k: "List.find ?P [?lo..<?lo + unat (associativity ?p)] = Some k"
    by auto
  note f = find_upt_Some [OF k]
  from ok have "policy_ok ?p" by (simp add: cache_ok_eq [of c])
  from set_range(3) [OF this, of addr] f(2) have "k < unat (blockNum ?p)"
    by simp
  from of_nat_not_sentinel(1) [OF this] getBlockId_ok [OF ok', of addr] k show ?thesis
    by (simp add: inCache_def pol)
qed

lemma evolvesW_chain:
  assumes "evolvesW w w'"
  shows "chainNeed (fst w') = chainNeed (fst w)" and "world_ok w \<Longrightarrow> world_ok w'"
proof -
  from assms have l: "list_all2 evolves (fst w) (fst w')"
    by (simp add: evolvesW_def)
  then show "chainNeed (fst w') = chainNeed (fst w)"
    by (induction rule: list_all2_induct) (simp_all add: evolves_def)
  from l show "world_ok w \<Longrightarrow> world_ok w'"
    unfolding world_ok_def
    by (induction rule: list_all2_induct) (simp_all add: evolves_def)
qed

lemma ready_evolves:
  assumes "ready k c w" and "evolves c c'" and "evolvesW w w'"
  shows "ready k c' w'"
  using assms evolvesW_chain [OF assms(3)]
  by (simp add: ready_def need_def evolves_def)

lemma ready_mono: "ready k c w \<Longrightarrow> k \<le> k' \<Longrightarrow> ready k' c w"
  by (simp add: ready_def)

lemma ready_victim:
  assumes "cache_ok c" and "world_ok w" and "need c w \<le> k + 3" and "victimCache c = Some v"
  shows "ready k v w"
  using assms by (simp add: ready_def need_def cache_ok_eq [of c] vdepth_eq [of c])

lemma ready_lower:
  assumes "world_ok (l # ls, m)" and "chainNeed (l # ls) \<le> k"
  shows "ready k l (ls, m)"
  using assms by (simp add: ready_def need_def world_ok_def)

lemma word_le_succ:
  fixes i e :: u32
  assumes "i < e"
  shows "i \<le> i + 1"
  using word_succ_measure(1) [OF assms] by (simp add: word_le_nat_alt)

lemma for_loop_total:
  assumes "P s"
    and "\<And>j x. i \<le> j \<Longrightarrow> j < e \<Longrightarrow> P x \<Longrightarrow> \<exists>x'. body j x = Inr x' \<and> P x'"
  shows "\<exists>s'. for_loop i e body s = Inr s' \<and> P s'"
  using assms
proof (induction i e body s rule: for_loop.induct)
  case (1 i e body s)
  show ?case
  proof (cases "i < e")
    case True
    from "1.prems"(2) [OF _ True "1.prems"(1)] obtain x where x: "body i s = Inr x" and Px: "P x"
      by auto
    have "\<exists>s'. for_loop (i + 1) e body x = Inr s' \<and> P s'"
    proof (rule "1.IH" [OF True x Px])
      fix j y
      assume "i + 1 \<le> j" "j < e" "P y"
      moreover from word_le_succ [OF True] \<open>i + 1 \<le> j\<close> have "i \<le> j"
        by (rule order_trans)
      ultimately show "\<exists>x'. body j y = Inr x' \<and> P x'"
        using "1.prems"(2) by blast
    qed
    with True x show ?thesis
      by (subst for_loop.simps) simp
  next
    case False
    with "1.prems"(1) show ?thesis
      by (subst for_loop.simps) simp
  qed
qed

lemma word_offset_less:
  fixes a j sz :: u32
  assumes "a \<le> j" and "j < a + sz"
  shows "unat (j - a) < unat sz"
proof -
  from assms(1) have "unat (j - a) = unat j - unat a"
    by (simp add: unat_sub)
  moreover from assms(2) have "unat j < unat (a + sz)"
    by (simp add: word_less_nat_alt)
  moreover have "unat (a + sz) \<le> unat a + unat sz"
    by (simp add: unat_word_ariths)
  moreover from assms(1) have "unat a \<le> unat j"
    by (simp add: word_le_nat_alt)
  ultimately show ?thesis by linarith
qed

lemma getBlockId_total:
  assumes "cache_ok c"
  shows "\<exists>r. getBlockId c addr = Inr r \<and> (r \<noteq> - 1 \<longrightarrow> unat r < length (blocks (st c)))"
proof -
  let ?p = "policy (st c)"
  let ?lo = "unat (getId ?p addr) * unat (associativity ?p)"
  let ?P = "\<lambda>k. valid (blocks (st c) ! k) \<and> tag (blocks (st c) ! k) = getTag ?p addr"
  from assms have pok: "policy_ok ?p" and len: "length (blocks (st c)) = unat (blockNum ?p)"
    by (simp_all add: cache_ok_eq [of c])
  note g = getBlockId_ok [OF assms, of addr]
  show ?thesis
  proof (cases "List.find ?P [?lo..<?lo + unat (associativity ?p)]")
    case None
    with g show ?thesis by simp
  next
    case (Some k)
    note f = find_upt_Some [OF Some]
    from set_range(3) [OF pok, of addr] f(2) have "k < unat (blockNum ?p)"
      by simp
    from of_nat_not_sentinel [OF this] this g Some len show ?thesis
      by simp
  qed
qed

lemma inCache_total:
  assumes "cache_ok c"
  shows "\<exists>hit. inCache c addr = Inr hit"
  using getBlockId_total [OF assms, of addr] by (auto simp: inCache_def)

lemma readBlockByte_total:
  assumes "cache_ok c" and "unat blockId < length (blocks (st c))"
  shows "\<exists>r. readBlockByte blockId addr c = Inr r"
proof -
  let ?p = "policy (st c)"
  from assms have pok: "policy_ok ?p"
    and blk: "block_ok ?p (unat blockId) (blocks (st c) ! unat blockId)"
    by (simp_all add: cache_ok_eq [of c])
  from blk getOffset_less [OF pok, of addr]
  have "unat (getOffset ?p addr) < length (data (blocks (st c) ! unat blockId))"
    by (simp add: block_ok_def)
  with assms(2) show ?thesis
    by (simp add: readBlockByte_def updateBlock_def blockAt_def dataAt_def)
qed

lemma writeBlockByte_total:
  assumes "cache_ok c" and "unat blockId < length (blocks (st c))"
  shows "\<exists>r. writeBlockByte blockId addr val c = Inr r"
proof -
  let ?p = "policy (st c)"
  from assms have pok: "policy_ok ?p"
    and blk: "block_ok ?p (unat blockId) (blocks (st c) ! unat blockId)"
    by (simp_all add: cache_ok_eq [of c])
  from blk getOffset_less [OF pok, of addr]
  have "unat (getOffset ?p addr) < length (data (blocks (st c) ! unat blockId))"
    by (simp add: block_ok_def)
  with assms(2) show ?thesis
    by (simp add: writeBlockByte_def updateBlock_def blockAt_def setDataAt_def)
qed

lemma setInvalid_total:
  assumes "cache_ok c"
  shows "\<exists>r. setInvalid addr c = Inr r"
  using getBlockId_total [OF assms, of addr]
  by (auto simp: setInvalid_def updateBlock_def)

lemma getReplacementBlockId_total:
  assumes "cache_ok c"
  shows "\<exists>r. getReplacementBlockId c (getId (policy (st c)) addr * associativity (policy (st c)))
              ((getId (policy (st c)) addr + 1) * associativity (policy (st c))) = Inr r \<and>
             blockAt (blocks (st c)) r = Inr (blocks (st c) ! unat r) \<and>
             block_ok (policy (st c)) (unat r) (blocks (st c) ! unat r)"
proof -
  let ?p = "policy (st c)"
  from assms have pok: "policy_ok ?p" and len: "length (blocks (st c)) = unat (blockNum ?p)"
    by (simp_all add: cache_ok_eq [of c])
  note sr = set_range [OF pok, of addr]
  have e: "unat ((getId ?p addr + 1) * associativity ?p) \<le> length (blocks (st c))"
    using sr(2,3) len by simp
  from getReplacementBlockId_correct [OF sr(4) e] obtain r where
    r: "getReplacementBlockId c (getId ?p addr * associativity ?p)
          ((getId ?p addr + 1) * associativity ?p) = Inr r"
    by blast
  from replaced_in_set(3) [OF assms r] assms r show ?thesis
    by (simp add: blockAt_def cache_ok_eq [of c])
qed

lemma getByte_totalD:
  "getByte_total k getB \<Longrightarrow> ready k c w \<Longrightarrow> \<exists>val c' w'. getB addr c w = Inr (val, c', w')"
  unfolding getByte_total_def by (metis prod_cases3)

lemma setByte_totalD:
  "setByte_total k setB \<Longrightarrow> ready k c w \<Longrightarrow> \<exists>c' w'. setB addr val c w = Inr (c', w')"
  unfolding setByte_total_def by (metis surj_pair)

lemma load_totalD:
  "load_total k load \<Longrightarrow> ready k c w \<Longrightarrow> \<exists>c' w'. load addr isRead c w = Inr (c', w')"
  unfolding load_total_def by (metis surj_pair)

lemma writeBlock_totalD:
  "writeBlock_total k wb \<Longrightarrow> ready k c w \<Longrightarrow> unat (size_blk b) \<le> length (data b) \<Longrightarrow>
   \<exists>c' w'. wb b c w = Inr (c', w')"
  unfolding writeBlock_total_def by (metis surj_pair)

lemma bump_ready:
  fixes c :: "('n::comm_ring_1, 'c::comm_ring_1) cache"
  assumes "ready k c w"
  shows "ready k (map_st (\<lambda>s. s\<lparr>referenceCounter := referenceCounter s + 1\<rparr>) c) w"
  using assms bump_referenceCounter_evolves [of c] by (rule ready_evolves) simp

lemma Cache_getByte_total:
  fixes load :: "('n::comm_ring_1, 'c::comm_ring_1) load_t"
  assumes ls: "load_sound load" and lt: "load_total k load"
  shows "getByte_total k (Cache_getByte load)"
  unfolding getByte_total_def
proof (intro allI impI)
  fix addr and c :: "('n, 'c) cache" and w
  assume rdy: "ready k c w"
  let ?c1 = "map_st (\<lambda>s. s\<lparr>referenceCounter := referenceCounter s + 1\<rparr>) c"
  note r1 = bump_ready [OF rdy]
  then have ok1: "cache_ok ?c1" by (simp add: ready_def)
  from getBlockId_total [OF ok1, of addr] obtain b where
    b: "getBlockId ?c1 addr = Inr b" and bl: "b \<noteq> - 1 \<longrightarrow> unat b < length (blocks (st ?c1))"
    by blast
  show "\<exists>r. Cache_getByte load addr c w = Inr r"
  proof (cases "b \<noteq> - 1")
    case True
    with bl readBlockByte_total [OF ok1, of b addr] b show ?thesis
      by (auto simp: Cache_getByte_def Let_def)
  next
    case False
    from load_totalD [OF lt r1] obtain c2 w2 where l: "load addr True ?c1 w = Inr (c2, w2)"
      by blast
    note le = load_soundD(1) [OF ls l]
    from load_effect_evolves(1) [OF le] ok1 have ok2: "cache_ok c2"
      by (simp add: evolves_def)
    from load_effect_inCache [OF ok1 le] obtain b2 where
      b2: "getBlockId c2 addr = Inr b2" and ne: "b2 \<noteq> - 1"
      by (auto simp: inCache_def split: sum.splits)
    from getBlockId_total [OF ok2, of addr] b2 ne have "unat b2 < length (blocks (st c2))"
      by simp
    from readBlockByte_total [OF ok2 this, of addr] False b l b2 ne show ?thesis
      by (auto simp: Cache_getByte_def Let_def)
  qed
qed

lemma Cache_setByte_total:
  fixes load :: "('n::comm_ring_1, 'c::comm_ring_1) load_t"
  assumes ls: "load_sound load" and lt: "load_total k load"
  shows "setByte_total k (Cache_setByte load)"
  unfolding setByte_total_def
proof (intro allI impI)
  fix addr val and c :: "('n, 'c) cache" and w
  assume rdy: "ready k c w"
  let ?c1 = "map_st (\<lambda>s. s\<lparr>referenceCounter := referenceCounter s + 1\<rparr>) c"
  note r1 = bump_ready [OF rdy]
  then have ok1: "cache_ok ?c1" by (simp add: ready_def)
  from getBlockId_total [OF ok1, of addr] obtain b where
    b: "getBlockId ?c1 addr = Inr b" and bl: "b \<noteq> - 1 \<longrightarrow> unat b < length (blocks (st ?c1))"
    by blast
  show "\<exists>r. Cache_setByte load addr val c w = Inr r"
  proof (cases "b \<noteq> - 1")
    case True
    with bl writeBlockByte_total [OF ok1, of b addr val] b show ?thesis
      by (auto simp: Cache_setByte_def Let_def)
  next
    case False
    from load_totalD [OF lt r1] obtain c2 w2 where l: "load addr False ?c1 w = Inr (c2, w2)"
      by blast
    note le = load_soundD(1) [OF ls l]
    from load_effect_evolves(1) [OF le] ok1 have ok2: "cache_ok c2"
      by (simp add: evolves_def)
    from load_effect_inCache [OF ok1 le] obtain b2 where
      b2: "getBlockId c2 addr = Inr b2" and ne: "b2 \<noteq> - 1"
      by (auto simp: inCache_def split: sum.splits)
    from getBlockId_total [OF ok2, of addr] b2 ne have "unat b2 < length (blocks (st c2))"
      by simp
    from writeBlockByte_total [OF ok2 this, of addr val] False b l b2 ne show ?thesis
      by (auto simp: Cache_setByte_def Let_def)
  qed
qed

lemma copyBlockFrom_total:
  assumes gs: "getByte_sound getB" and gt: "getByte_total k getB"
    and rdy: "ready k x w" and len: "length (data nb) = unat sz"
  shows "\<exists>r. copyBlockFrom getB a sz nb x w = Inr r"
proof -
  let ?P = "\<lambda>(b, y, u). ready k y u \<and> length (data b) = unat sz"
  have "\<exists>s'. for_loop a (a + sz)
          (\<lambda>i (b, x, w).
             case getB i x w of
               Inl e \<Rightarrow> Inl e
             | Inr (val, x', w') \<Rightarrow>
                 (case setDataAt (i - a) val b of
                    Inl e \<Rightarrow> Inl e
                  | Inr b' \<Rightarrow> Inr (b', x', w')))
          (nb, x, w) = Inr s' \<and> ?P s'"
  proof (rule for_loop_total, goal_cases)
    case 1
    from rdy len show ?case by simp
  next
    case (2 j s)
    obtain b y u where s: "s = (b, y, u)" by (cases s)
    with 2(3) have ry: "ready k y u" and lb: "length (data b) = unat sz" by simp_all
    from getByte_totalD [OF gt ry] obtain val y' u' where g: "getB j y u = Inr (val, y', u')"
      by blast
    note e = getByte_soundD [OF gs g]
    from ready_evolves [OF ry e(1,2)] have r': "ready k y' u'" .
    from word_offset_less [OF 2(1,2)] lb have "unat (j - a) < length (data b)"
      by simp
    with g r' lb s show ?case
      by (simp add: setDataAt_def)
  qed
  then show ?thesis
    by (auto simp: copyBlockFrom_def)
qed

lemma copyBlockFromMemory_total:
  assumes len: "length (data nb) = unat sz"
  shows "\<exists>r. copyBlockFromMemory m a sz nb = Inr r"
proof -
  have "\<exists>s'. for_loop a (a + sz) (\<lambda>i b. setDataAt (i - a) (mem_getByte m i) b) nb = Inr s' \<and>
          length (data s') = unat sz"
  proof (rule for_loop_total, goal_cases)
    case 1
    from len show ?case .
  next
    case (2 j b)
    from word_offset_less [OF 2(1,2)] 2(3) show ?case
      by (simp add: setDataAt_def)
  qed
  then show ?thesis
    by (auto simp: copyBlockFromMemory_def)
qed

lemma storeBlockInto_total:
  assumes ss: "setByte_sound setB" and st: "setByte_total k setB"
    and rdy: "ready k x w" and len: "unat (size_blk b) \<le> length (data b)"
  shows "\<exists>r. storeBlockInto setB a b x w = Inr r"
proof -
  let ?P = "\<lambda>(y, u). ready k y u"
  have "\<exists>s'. for_loop 0 (size_blk b)
          (\<lambda>i (x, w).
             case dataAt b i of
               Inl e \<Rightarrow> Inl e
             | Inr val \<Rightarrow> setB (a + i) val x w)
          (x, w) = Inr s' \<and> ?P s'"
  proof (rule for_loop_total, goal_cases)
    case 1
    from rdy show ?case by simp
  next
    case (2 j s)
    obtain y u where s: "s = (y, u)" by (cases s)
    with 2(3) have ry: "ready k y u" by simp
    from 2(2) len have d: "dataAt b j = Inr (data b ! unat j)"
      by (simp add: dataAt_def word_less_nat_alt)
    from setByte_totalD [OF st ry] obtain y' u' where
      g: "setB (a + j) (data b ! unat j) y u = Inr (y', u')"
      by blast
    note e = setByte_soundD [OF ss g]
    from ready_evolves [OF ry e(1,2)] g d s show ?case
      by simp
  qed
  then show ?thesis
    by (auto simp: storeBlockInto_def)
qed

lemma storeBlockIntoMemory_total:
  assumes len: "unat (size_blk b) \<le> length (data b)"
  shows "\<exists>r. storeBlockIntoMemory a b m = Inr r"
proof -
  have "\<exists>s'. for_loop 0 (size_blk b)
          (\<lambda>i m. case dataAt b i of Inl e \<Rightarrow> Inl e
                  | Inr val \<Rightarrow> Inr (snd (mem_setByte m (a + i) val))) m = Inr s' \<and> True"
  proof (rule for_loop_total, goal_cases)
    case 1
    show ?case by simp
  next
    case (2 j s)
    from 2(2) len show ?case
      by (simp add: dataAt_def word_less_nat_alt)
  qed
  then show ?thesis
    by (auto simp: storeBlockIntoMemory_def)
qed

lemma enabledVictim_Some:
  "enabledVictim c = Some v \<Longrightarrow> victimCache c = Some v"
  by (simp add: enabledVictim_def split: if_splits)

lemma Cache_writeBlockToLowerLevel_total:
  fixes setB :: "('n::comm_ring_1, 'c::comm_ring_1) setByte_t"
  assumes ss: "setByte_sound setB" and st: "setByte_total k setB"
  shows "writeBlock_total (k + 3) (Cache_writeBlockToLowerLevel setB)"
  unfolding writeBlock_total_def
proof (intro allI impI)
  fix b :: block and c :: "('n, 'c) cache" and w
  assume a: "ready (k + 3) c w \<and> unat (size_blk b) \<le> length (data b)"
  then have ok: "cache_ok c" and wok: "world_ok w" and nd: "need c w \<le> k + 3"
    and len: "unat (size_blk b) \<le> length (data b)"
    by (simp_all add: ready_def)
  let ?a = "getAddr (policy (st c)) b"
  show "\<exists>r. Cache_writeBlockToLowerLevel setB b c w = Inr r"
  proof (cases "enabledVictim c")
    case (Some v)
    from ready_victim [OF ok wok nd enabledVictim_Some [OF Some]]
    have "ready k v w" .
    from storeBlockInto_total [OF ss st this len, of ?a] Some show ?thesis
      by (auto simp: Cache_writeBlockToLowerLevel_def Let_def)
  next
    case None
    obtain ls m where w: "w = (ls, m)" by (cases w)
    show ?thesis
    proof (cases ls)
      case Nil
      with storeBlockIntoMemory_total [OF len, of ?a m] None w show ?thesis
        by (auto simp: Cache_writeBlockToLowerLevel_def Let_def)
    next
      case (Cons l rest)
      from nd w Cons have "chainNeed (l # rest) \<le> k"
        by (simp add: need_def)
      from ready_lower [OF _ this, of m] wok w Cons have "ready k l (rest, m)"
        by simp
      from storeBlockInto_total [OF ss st this len, of ?a] None w Cons show ?thesis
        by (auto simp: Cache_writeBlockToLowerLevel_def Let_def)
    qed
  qed
qed

lemma probe_ready:
  fixes x :: "('n::comm_ring_1, 'c::comm_ring_1) cache"
  assumes "ready k x w"
  shows "ready k (countLookup hit (map_statistics (countAccess isRead) x)) w"
  using assms probe_evolves [of x hit isRead] by (rule ready_evolves) simp

lemma probeVictimCache_total:
  fixes getB :: "('n::comm_ring_1, 'c::comm_ring_1) getByte_t"
  assumes gs: "getByte_sound getB" and gt: "getByte_total k getB"
    and ok: "cache_ok c" and wok: "world_ok w" and nd: "need c w \<le> k + 3"
    and len: "length (data nb) = unat (blockSize (policy (st c)))"
  shows "\<exists>r. probeVictimCache getB a isRead nb c w = Inr r"
proof (cases "enableVictimCache (st c)")
  case False
  then show ?thesis by (auto simp: probeVictimCache_def)
next
  case True
  with ok obtain v where v: "victimCache c = Some v"
    by (auto simp: cache_ok_eq [of c])
  let ?v1 = "map_statistics (countAccess isRead) v"
  from ready_victim [OF ok wok nd v] have rv: "ready k v w" .
  then have "cache_ok v" by (simp add: ready_def)
  then have "cache_ok ?v1"
    by (simp add: cache_ok_eq [of v] cache_ok_eq [of ?v1])
  from inCache_total [OF this, of a] obtain hit where hit: "inCache ?v1 a = Inr hit"
    by blast
  show ?thesis
  proof (cases hit)
    case False
    with True v hit show ?thesis
      by (auto simp: probeVictimCache_def Let_def)
  next
    case h: True
    note r2 = probe_ready [OF rv, of True isRead]
    from copyBlockFrom_total [OF gs gt r2 len, of a] obtain nb' v2 w' where
      cp: "copyBlockFrom getB a (blockSize (policy (st c))) nb (countLookup True ?v1) w =
             Inr (nb', v2, w')"
      by (metis prod_cases3)
    note e = copyBlockFrom_sound [OF gs cp]
    from ready_evolves [OF r2 e(1,2)] have "cache_ok v2"
      by (simp add: ready_def)
    from setInvalid_total [OF this, of a] True v hit h cp show ?thesis
      by (auto simp: probeVictimCache_def Let_def)
  qed
qed

lemma fetchFromLowerLevel_total:
  fixes getB :: "('n::comm_ring_1, 'c::comm_ring_1) getByte_t"
  assumes gs: "getByte_sound getB" and gt: "getByte_total k getB"
    and ls: "load_sound load" and lt: "load_total (k + 1) load"
    and wok: "world_ok w" and nd: "chainNeed (fst w) \<le> k"
    and len: "length (data nb) = unat sz"
  shows "\<exists>r. fetchFromLowerLevel getB load a isRead sz nb w = Inr r"
proof -
  obtain lows m where w: "w = (lows, m)" by (cases w)
  show ?thesis
  proof (cases lows)
    case Nil
    with copyBlockFromMemory_total [OF len, of m a] w show ?thesis
      by (auto simp: fetchFromLowerLevel_def)
  next
    case (Cons l rest)
    let ?l1 = "map_statistics (countAccess isRead) l"
    from ready_lower [of l rest m k] wok nd w Cons have rl: "ready k l (rest, m)"
      by simp
    then have "cache_ok l" by (simp add: ready_def)
    then have "cache_ok ?l1"
      by (simp add: cache_ok_eq [of l] cache_ok_eq [of ?l1])
    from inCache_total [OF this, of a] obtain hit where hit: "inCache ?l1 a = Inr hit"
      by blast
    note r1 = probe_ready [OF rl, of hit isRead]
    have "\<exists>l2 w2. (if hit then Inr (countLookup True ?l1, rest, m)
               else load a isRead (countLookup False ?l1) (rest, m)) = Inr (l2, w2) \<and>
               ready k l2 w2"
    proof (cases hit)
      case True
      with r1 show ?thesis by simp
    next
      case False
      from r1 False have r1': "ready (k + 1) (countLookup False ?l1) (rest, m)"
        by (simp add: ready_def)
      from load_totalD [OF lt r1'] obtain l2 w2 where
        l: "load a isRead (countLookup False ?l1) (rest, m) = Inr (l2, w2)"
        by blast
      note e = load_soundD [OF ls l]
      from ready_evolves [OF _ load_effect_evolves(1) [OF e(1)] e(2)] r1 False
      have "ready k l2 w2" by simp
      with l False show ?thesis by simp
    qed
    then obtain l2 w2 where
      l2: "(if hit then Inr (countLookup True ?l1, rest, m)
               else load a isRead (countLookup False ?l1) (rest, m)) = Inr (l2, w2)"
      and r2: "ready k l2 w2"
      by blast
    from copyBlockFrom_total [OF gs gt r2 len, of a] obtain nb' l3 ls3 m3 where
      "copyBlockFrom getB a sz nb l2 w2 = Inr (nb', l3, ls3, m3)"
      by (metis prod_cases4)
    with w Cons hit l2 show ?thesis
      by (simp add: fetchFromLowerLevel_def Let_def)
  qed
qed

lemma evictBlock_total:
  fixes setB :: "('n::comm_ring_1, 'c::comm_ring_1) setByte_t"
  assumes ss: "setByte_sound setB" and st: "setByte_total k setB"
    and wt: "writeBlock_total (k + 2) wb"
    and ok: "cache_ok c" and wok: "world_ok w" and nd: "need c w \<le> k + 2"
    and len: "unat (size_blk rb) \<le> length (data rb)"
  shows "\<exists>r. evictBlock setB wb rb c w = Inr r"
proof (cases "valid rb")
  case False
  then show ?thesis by (simp add: evictBlock_def)
next
  case v: True
  show ?thesis
  proof (cases "modified rb")
    case True
    from ok wok nd have "ready (k + 2) c w" by (simp add: ready_def)
    from writeBlock_totalD [OF wt this len] v True show ?thesis
      by (auto simp: evictBlock_def)
  next
    case False
    show ?thesis
    proof (cases "enabledVictim c")
      case None
      with v False show ?thesis by (simp add: evictBlock_def)
    next
      case (Some x)
      from nd have "need c w \<le> k + 3" by simp
      from ready_victim [OF ok wok this enabledVictim_Some [OF Some]]
      have "ready k x w" .
      from storeBlockInto_total [OF ss st this len, of "getAddr (policy (st c)) rb"]
        v False Some show ?thesis
        by (auto simp: evictBlock_def)
    qed
  qed
qed

lemma Cache_loadBlockFromLowerLevel_total:
  fixes getB :: "('n::comm_ring_1, 'c::comm_ring_1) getByte_t"
  assumes gs: "getByte_sound getB" and ss: "setByte_sound setB"
    and ls: "load_sound load" and ws: "writeBlock_sound wb"
    and gt: "getByte_total k getB" and st: "setByte_total k setB"
    and lt: "load_total (k + 1) load" and wt: "writeBlock_total (k + 2) wb"
  shows "load_total (k + 2) (Cache_loadBlockFromLowerLevel getB setB load wb)"
  unfolding load_total_def
proof (intro allI impI)
  fix addr isRead and c :: "('n, 'c) cache" and w
  assume rdy: "ready (k + 2) c w"
  then have ok: "cache_ok c" and wok: "world_ok w" and nd: "need c w \<le> k + 2"
    by (simp_all add: ready_def)
  let ?p = "policy (st c)"
  let ?idx = "getId ?p addr"
  let ?nb = "\<lparr>valid = True, modified = False, tag = getTag ?p addr, id_blk = ?idx,
              size_blk = blockSize ?p, lastReference = referenceCounter (st c),
              createdAt = referenceCounter (st c),
              data = replicate (unat (blockSize ?p)) 0\<rparr>"
  let ?a = "addr AND NOT (push_bit (unat (log2i (blockSize ?p))) 1 - 1)"
  from getReplacementBlockId_total [OF ok, of addr] obtain r where
    r: "getReplacementBlockId c (?idx * associativity ?p) ((?idx + 1) * associativity ?p) = Inr r"
    and rb: "blockAt (blocks (st c)) r = Inr (blocks (st c) ! unat r)"
    and rbok: "block_ok ?p (unat r) (blocks (st c) ! unat r)"
    by blast
  let ?rb = "blocks (st c) ! unat r"
  from replaced_in_set(3) [OF ok r] have rl: "unat r < length (blocks (st c))" .
  have nd3: "need c w \<le> k + 3" using nd by simp
  have lnb: "length (data ?nb) = unat (blockSize ?p)" by simp
  from probeVictimCache_total [OF gs gt ok wok nd3 lnb, of ?a isRead]
  obtain rfv nb1 c1 w1 where
    pv: "probeVictimCache getB ?a isRead ?nb c w = Inr (rfv, nb1, c1, w1)"
    by (metis prod_cases4)
  note p = probeVictimCache_sound [OF gs pv]
  have c1: "evolves c c1"
    by (rule evolvesI) (simp_all add: p(1,2) cache_ok_eq [of c])
  from ready_evolves [OF rdy c1 p(3)] have r1: "ready (k + 2) c1 w1" .
  have l1: "length (data nb1) = unat (blockSize ?p)"
    using p(4) by (simp add: sameHeader_def)
  have "\<exists>nb2 w2. (if \<not> rfv then fetchFromLowerLevel getB load ?a isRead (blockSize ?p) nb1 w1
              else Inr (nb1, w1)) = Inr (nb2, w2) \<and> evolvesW w1 w2"
  proof (cases rfv)
    case True
    then show ?thesis by simp
  next
    case False
    from r1 have "world_ok w1" "chainNeed (fst w1) \<le> k"
      by (simp_all add: ready_def need_def)
    from fetchFromLowerLevel_total [OF gs gt ls lt this l1, of ?a isRead]
    obtain nb2 w2 where
      f: "fetchFromLowerLevel getB load ?a isRead (blockSize ?p) nb1 w1 = Inr (nb2, w2)"
      by (metis surj_pair)
    from fetchFromLowerLevel_sound(1) [OF gs ls f] f False show ?thesis
      by simp
  qed
  then obtain nb2 w2 where
    ff: "(if \<not> rfv then fetchFromLowerLevel getB load ?a isRead (blockSize ?p) nb1 w1
              else Inr (nb1, w1)) = Inr (nb2, w2)"
    and e2: "evolvesW w1 w2"
    by blast
  from ready_evolves [OF r1 evolves_refl e2] have r2: "ready (k + 2) c1 w2" .
  then have ok1: "cache_ok c1" and wok2: "world_ok w2" and nd2: "need c1 w2 \<le> k + 2"
    by (simp_all add: ready_def)
  from rbok have lrb: "unat (size_blk ?rb) \<le> length (data ?rb)"
    by (simp add: block_ok_def)
  from evictBlock_total [OF ss st wt ok1 wok2 nd2 lrb] obtain c3 w3 where
    ev: "evictBlock setB wb ?rb c1 w2 = Inr (c3, w3)"
    by (metis surj_pair)
  note e = evictBlock_sound [OF ss ws ev]
  have "length (blocks (st c3)) = length (blocks (st c))"
    by (simp add: e(1) p(1))
  with rl have "\<exists>c4. updateBlock r (\<lambda>b. nb2) c3 = Inr c4"
    by (simp add: updateBlock_def)
  with r rb pv ff ev show "\<exists>res. Cache_loadBlockFromLowerLevel getB setB load wb addr isRead c w = Inr res"
    unfolding Cache_loadBlockFromLowerLevel_def Let_def by auto
qed

lemma methods_total:
  "getByte_total n (getByte n :: ('n::comm_ring_1, 'c::comm_ring_1) getByte_t) \<and>
   setByte_total n (setByte n :: ('n, 'c) setByte_t) \<and>
   load_total (n + 1) (loadBlockFromLowerLevel n :: ('n, 'c) load_t) \<and>
   writeBlock_total (n + 2) (writeBlockToLowerLevel n :: ('n, 'c) writeBlock_t)"
proof (induction n)
  case 0
  show ?case
    by (simp add: getByte_total_def setByte_total_def load_total_def writeBlock_total_def
        ready_def need_def)
next
  case (Suc n)
  then have g: "getByte_total n (getByte n :: ('n, 'c) getByte_t)"
    and s: "setByte_total n (setByte n :: ('n, 'c) setByte_t)"
    and l: "load_total (n + 1) (loadBlockFromLowerLevel n :: ('n, 'c) load_t)"
    and w: "writeBlock_total (n + 2) (writeBlockToLowerLevel n :: ('n, 'c) writeBlock_t)"
    by simp_all
  note snd = methods_sound [where 'n = 'n and 'c = 'c, of n]
  from snd have gs: "getByte_sound (getByte n :: ('n, 'c) getByte_t)"
    and ss: "setByte_sound (setByte n :: ('n, 'c) setByte_t)"
    and ls: "load_sound (loadBlockFromLowerLevel n :: ('n, 'c) load_t)"
    and ws: "writeBlock_sound (writeBlockToLowerLevel n :: ('n, 'c) writeBlock_t)"
    by simp_all
  have "getByte_total (Suc n) (getByte (Suc n) :: ('n, 'c) getByte_t)"
    using Cache_getByte_total [OF ls l] by simp
  moreover have "setByte_total (Suc n) (setByte (Suc n) :: ('n, 'c) setByte_t)"
    using Cache_setByte_total [OF ls l] by simp
  moreover have "load_total (Suc n + 1) (loadBlockFromLowerLevel (Suc n) :: ('n, 'c) load_t)"
    using Cache_loadBlockFromLowerLevel_total [OF gs ss ls ws g s l w] by simp
  moreover have "writeBlock_total (Suc n + 2)
      (writeBlockToLowerLevel (Suc n) :: ('n, 'c) writeBlock_t)"
    using Cache_writeBlockToLowerLevel_total [OF ss s] by (simp add: numeral_3_eq_3)
  ultimately show ?case by simp
qed

lemma probed_countLookup:
  "probed isRead hit (statistics (st l))
     (statistics (st (countLookup hit (map_statistics (countAccess isRead) l))))"
  by (simp add: probed_def countLookup_def countAccess_def countHit_def countMiss_def)

lemma probed_sameCounters:
  "probed isRead hit s s' \<Longrightarrow> sameCounters s' s'' \<Longrightarrow> probed isRead hit s s''"
  by (simp add: probed_def sameCounters_def)

lemma fetchFromLowerLevel_counters:
  assumes gs: "getByte_sound getB" and ls: "load_sound load"
    and run: "fetchFromLowerLevel getB load a isRead sz nb (l # rest, m) = Inr (nb', w')"
  shows "\<exists>hit l' rest' m'. inCache l a = Inr hit \<and> w' = (l' # rest', m') \<and>
           probed isRead hit (statistics (st l)) (statistics (st l'))"
proof -
  let ?l1 = "map_statistics (countAccess isRead) l"
  from run obtain hit l2 w2 l3 rest3 m3 where
    hit: "inCache ?l1 a = Inr hit"
    and l2: "(if hit then Inr (countLookup True ?l1, rest, m)
             else load a isRead (countLookup False ?l1) (rest, m)) = Inr (l2, w2)"
    and cp: "copyBlockFrom getB a sz nb l2 w2 = Inr (nb', l3, rest3, m3)"
    and w': "w' = (l3 # rest3, m3)"
    by (auto simp: fetchFromLowerLevel_def Let_def split: sum.splits)
  have "sameCounters (statistics (st (countLookup hit ?l1))) (statistics (st l2))"
  proof (cases hit)
    case True
    with l2 show ?thesis by auto
  next
    case False
    with l2 have "load a isRead (countLookup False ?l1) (rest, m) = Inr (l2, w2)" by simp
    from load_effect_evolves(2) [OF load_soundD(1) [OF ls this]] False show ?thesis
      by simp
  qed
  with copyBlockFrom_sound(3) [OF gs cp]
  have "sameCounters (statistics (st (countLookup hit ?l1))) (statistics (st l3))"
    by (rule sameCounters_trans [rotated])
  with probed_countLookup [of isRead hit l] have "probed isRead hit (statistics (st l)) (statistics (st l3))"
    by (rule probed_sameCounters)
  with hit w' show ?thesis by simp
qed

lemma writeBlockToLowerLevel_lower_counters:
  assumes run: "writeBlockToLowerLevel n b c (l # rest, m) = Inr (c', w')"
    and nv: "enabledVictim c = None"
  shows "\<exists>l' rest' m'. w' = (l' # rest', m') \<and>
           sameCounters (statistics (st l)) (statistics (st l'))"
proof (cases n)
  case 0
  with run show ?thesis by simp
next
  case (Suc k)
  with run nv obtain l' rest' m' where
    s: "storeBlockInto (setByte k) (getAddr (policy (st c)) b) b l (rest, m) = Inr (l', rest', m')"
    and w': "w' = (l' # rest', m')"
    by (auto simp: Cache_writeBlockToLowerLevel_def Let_def split: sum.splits)
  from storeBlockInto_sound(3) [OF methods_sound [THEN conjunct2, THEN conjunct1] s] w'
  show ?thesis by simp
qed

lemma evictBlock_lower_counters:
  assumes run: "evictBlock (setByte n) (writeBlockToLowerLevel n) rb c (l # rest, m) = Inr (c', w')"
    and nv: "enabledVictim c = None"
  shows "\<exists>l' rest' m'. w' = (l' # rest', m') \<and>
           sameCounters (statistics (st l)) (statistics (st l'))"
proof (cases "valid rb \<and> modified rb")
  case True
  with run obtain c1 where wb: "writeBlockToLowerLevel n rb c (l # rest, m) = Inr (c1, w')"
    by (auto simp: evictBlock_def split: sum.splits)
  from writeBlockToLowerLevel_lower_counters [OF wb nv] show ?thesis .
next
  case False
  with run nv have "w' = (l # rest, m)"
    by (auto simp: evictBlock_def split: if_splits)
  then show ?thesis by simp
qed

lemma load_lower_counters:
  assumes run: "loadBlockFromLowerLevel n addr isRead c (l # rest, m) = Inr (c', w')"
    and nv: "\<not> enableVictimCache (st c)"
  shows "\<exists>hit l' rest' m'. inCache l (blockAddrBegin (policy (st c)) addr) = Inr hit \<and>
           w' = (l' # rest', m') \<and>
           probed isRead hit (statistics (st l)) (statistics (st l'))"
proof (cases n)
  case 0
  with run show ?thesis by simp
next
  case (Suc k)
  let ?p = "policy (st c)"
  let ?a = "blockAddrBegin ?p addr"
  note snd = methods_sound [where 'n = 'a and 'c = 'b, of k]
  from run Suc have run': "Cache_loadBlockFromLowerLevel (getByte k) (setByte k)
      (loadBlockFromLowerLevel k) (writeBlockToLowerLevel k) addr isRead c (l # rest, m) =
      Inr (c', w')"
    by simp
  from run' nv obtain rb nb2 w2 c3 where
    ff: "fetchFromLowerLevel (getByte k) (loadBlockFromLowerLevel k) ?a isRead (blockSize ?p)
           \<lparr>valid = True, modified = False, tag = getTag ?p addr, id_blk = getId ?p addr,
            size_blk = blockSize ?p, lastReference = referenceCounter (st c),
            createdAt = referenceCounter (st c),
            data = replicate (unat (blockSize ?p)) 0\<rparr> (l # rest, m) = Inr (nb2, w2)"
    and ev: "evictBlock (setByte k) (writeBlockToLowerLevel k) rb c w2 = Inr (c3, w')"
    unfolding Cache_loadBlockFromLowerLevel_def Let_def blockAddrBegin_def
    by (auto simp: probeVictimCache_def split: sum.splits)
  from fetchFromLowerLevel_counters [OF snd [THEN conjunct1]
      snd [THEN conjunct2, THEN conjunct2, THEN conjunct1] ff]
  obtain hit l2 rest2 m2 where hit: "inCache l ?a = Inr hit" and w2: "w2 = (l2 # rest2, m2)"
    and p: "probed isRead hit (statistics (st l)) (statistics (st l2))"
    by blast
  from nv have "enabledVictim c = None" by (simp add: enabledVictim_def)
  from evictBlock_lower_counters [OF ev [unfolded w2] this] obtain l' rest' m' where
    w': "w' = (l' # rest', m')" and s: "sameCounters (statistics (st l2)) (statistics (st l'))"
    by blast
  from probed_sameCounters [OF p s] hit w' show ?thesis by simp
qed

text \<open>
  Claim C4, as amended. For every cache state and every address whose block is absent, a
  \<^verbatim>\<open>fetch\<close> that returns leaves this cache's \<open>numRead\<close>, \<open>numWrite\<close>, \<open>numHit\<close> and
  \<open>numMiss\<close> as they were; \<open>totalCycles\<close> grows by \<open>missLatency\<close> when the block that the
  load replaces is valid and modified (the write-back penalty), and is unchanged
  otherwise. The load counts at the lower level: without a victim cache and with a lower
  cache, the lower cache's \<open>numRead\<close> grows by one, and so does its \<open>numHit\<close> or its
  \<open>numMiss\<close>.
\<close>

theorem fetch_absent_statistics:
  assumes "fetch n addr c w = Inr (c', w')" and "inCache c addr = Inr False"
  shows "numRead (statistics (st c')) = numRead (statistics (st c)) \<and>
         numWrite (statistics (st c')) = numWrite (statistics (st c)) \<and>
         numHit (statistics (st c')) = numHit (statistics (st c)) \<and>
         numMiss (statistics (st c')) = numMiss (statistics (st c)) \<and>
         (\<exists>r rb. getReplacementBlockId c
                   (getId (policy (st c)) addr * associativity (policy (st c)))
                   ((getId (policy (st c)) addr + 1) * associativity (policy (st c))) = Inr r \<and>
                 blockAt (blocks (st c)) r = Inr rb \<and>
                 totalCycles (statistics (st c')) =
                   totalCycles (statistics (st c)) +
                   (if valid rb \<and> modified rb
                    then of_nat (unat (missLatency (policy (st c)))) else 0)) \<and>
         (\<not> enableVictimCache (st c) \<longrightarrow>
            (\<forall>l rest m. w = (l # rest, m) \<longrightarrow>
               (\<exists>hit l' rest' m'.
                  w' = (l' # rest', m') \<and>
                  numRead (statistics (st l')) = numRead (statistics (st l)) + 1 \<and>
                  numWrite (statistics (st l')) = numWrite (statistics (st l)) \<and>
                  numHit (statistics (st l')) =
                    (if hit then numHit (statistics (st l)) + 1 else numHit (statistics (st l))) \<and>
                  numMiss (statistics (st l')) =
                    (if hit then numMiss (statistics (st l))
                     else numMiss (statistics (st l)) + 1))))"
proof -
  from assms have l: "loadBlockFromLowerLevel n addr True c w = Inr (c', w')"
    by (auto simp: fetch_def inCache_def split: sum.splits if_splits)
  from load_evolves(1) [OF l] obtain r rb bytes where
    r: "getReplacementBlockId c
          (getId (policy (st c)) addr * associativity (policy (st c)))
          ((getId (policy (st c)) addr + 1) * associativity (policy (st c))) = Inr r"
    and rb: "blockAt (blocks (st c)) r = Inr rb"
    and st: "st c' = installed addr r rb bytes (st c)"
    unfolding load_effect_def Let_def by blast
  have "\<exists>hit l' rest' m'. w' = (l' # rest', m') \<and>
          probed True hit (statistics (st l0)) (statistics (st l'))"
    if "\<not> enableVictimCache (st c)" and "w = (l0 # rest, m)" for l0 rest m
    using load_lower_counters [OF l [unfolded that(2)] that(1)] by blast
  with r rb show ?thesis
    by (simp add: st installed_def probed_def)
qed

text \<open>
  The example state is the one that a write to address 0 leaves in a fresh cache of one
  two-byte block: the block is valid and modified.
\<close>

lemma dirtyExample_reached:
  "newCache tinyMiss = Inr freshTiny"
  "write_c 3 0 0 freshTiny ([], MemoryManager) = Inr (dirtyExample, [], MemoryManager)"
  by code_simp+

lemma Inr_projr: "\<not> isl x \<Longrightarrow> x = Inr (fst (projr x), snd (projr x))"
  by (cases x) simp_all

theorem fetch_absent_statistics_witness:
  "inCache dirtyExample 2 = Inr False \<and> \<not> isl dirtyFetch \<and>
   statistics (st dirtyExample) =
     \<lparr>numRead = 0, numWrite = 1, numHit = 0, numMiss = 1, totalCycles = 8\<rparr> \<and>
   statistics (st (fst (projr dirtyFetch))) =
     \<lparr>numRead = 0, numWrite = 1, numHit = 0, numMiss = 1, totalCycles = 16\<rparr> \<and>
   statistics (st lowerExample) =
     \<lparr>numRead = 0, numWrite = 0, numHit = 0, numMiss = 0, totalCycles = 0\<rparr> \<and>
   map (\<lambda>l. statistics (st l)) (fst (snd (projr dirtyFetch))) =
     [\<lparr>numRead = 1, numWrite = 0, numHit = 0, numMiss = 1, totalCycles = 20\<rparr>]"
proof -
  have absent: "inCache dirtyExample 2 = Inr False"
    by code_simp
  have ran: "\<not> isl dirtyFetch"
    by code_simp
  have run: "fetch 5 2 dirtyExample ([lowerExample], MemoryManager) =
               Inr (fst (projr dirtyFetch), snd (projr dirtyFetch))"
    using Inr_projr [OF ran] by (simp add: dirtyFetch_def)
  have after: "statistics (st (fst (projr dirtyFetch))) =
     \<lparr>numRead = 0, numWrite = 1, numHit = 0, numMiss = 1, totalCycles = 16\<rparr>"
    "map (\<lambda>l. statistics (st l)) (fst (snd (projr dirtyFetch))) =
     [\<lparr>numRead = 1, numWrite = 0, numHit = 0, numMiss = 1, totalCycles = 20\<rparr>]"
    by code_simp+
  have before: "statistics (st dirtyExample) =
     \<lparr>numRead = 0, numWrite = 1, numHit = 0, numMiss = 1, totalCycles = 8\<rparr>"
    "statistics (st lowerExample) =
     \<lparr>numRead = 0, numWrite = 0, numHit = 0, numMiss = 0, totalCycles = 0\<rparr>"
    by (simp_all add: dirtyExample_def lowerExample_def zeroStatistics_def)
  from fetch_absent_statistics [OF run absent] absent ran after before
  show ?thesis by simp
qed

text \<open>
  The claim as stated fails on \<open>totalCycles\<close>: the fetch of address 2 into the example
  state replaces the valid modified block of address 0, and the cycle count goes from 8
  to 16.
\<close>

theorem fetch_totalCycles_counterexample:
  "inCache dirtyExample 2 = Inr False \<and>
   \<not> isl (fetch 2 2 dirtyExample ([], MemoryManager)) \<and>
   totalCycles (statistics (st dirtyExample)) = 8 \<and>
   totalCycles (statistics (st (fst (projr (fetch 2 2 dirtyExample ([], MemoryManager)))))) = 16"
  by code_simp

lemma fetch_total:
  fixes c :: "('n::comm_ring_1, 'c::comm_ring_1) cache"
  assumes "ready (n + 1) c w"
  shows "\<exists>c' w'. fetch n addr c w = Inr (c', w')"
proof -
  from assms have ok: "cache_ok c" by (simp add: ready_def)
  from getBlockId_total [OF ok, of addr] obtain b where b: "getBlockId c addr = Inr b"
    by blast
  from load_totalD [OF methods_total [THEN conjunct2, THEN conjunct2, THEN conjunct1] assms,
      of addr True] b
  show ?thesis
    by (auto simp: fetch_def)
qed

text \<open>
  Claim C5. For every well-formed cache state and every address, whenever
  \<^verbatim>\<open>fetch(addr)\<close> returns, \<^verbatim>\<open>inCache(addr)\<close> is true of the cache it leaves; if the
  block was absent, a slot of the address's set then holds a valid block with the
  address's tag and set id. And \<^verbatim>\<open>fetch\<close> does return when the caches below are
  well-formed too and the call-depth budget covers the hierarchy.
\<close>

theorem fetch_then_inCache:
  fixes c :: "('n::comm_ring_1, 'c::comm_ring_1) cache"
  assumes "cache_ok c"
  shows "(\<forall>c' w'. fetch n addr c w = Inr (c', w') \<longrightarrow>
            inCache c' addr = Inr True \<and>
            (inCache c addr = Inr False \<longrightarrow>
               (\<exists>k. unat (getId (policy (st c)) addr) * unat (associativity (policy (st c))) \<le> k \<and>
                    k < unat (getId (policy (st c)) addr) * unat (associativity (policy (st c))) +
                        unat (associativity (policy (st c))) \<and>
                    valid (blocks (st c') ! k) \<and>
                    tag (blocks (st c') ! k) = getTag (policy (st c)) addr \<and>
                    id_blk (blocks (st c') ! k) = getId (policy (st c)) addr))) \<and>
         (world_ok w \<and> need c w \<le> n + 1 \<longrightarrow> (\<exists>c' w'. fetch n addr c w = Inr (c', w')))"
proof (intro conjI allI impI)
  fix c' w'
  assume run: "fetch n addr c w = Inr (c', w')"
  note fe = fetch_effect(1) [OF run]
  show "inCache c' addr = Inr True"
    using fe load_effect_inCache [OF assms] by auto
  assume absent: "inCache c addr = Inr False"
  with fe have le: "load_effect addr c c'" by auto
  let ?p = "policy (st c)"
  from le obtain r rb bytes where
    r: "getReplacementBlockId c (getId ?p addr * associativity ?p)
          ((getId ?p addr + 1) * associativity ?p) = Inr r"
    and st: "st c' = installed addr r rb bytes (st c)"
    unfolding load_effect_def Let_def by blast
  note rs = replaced_in_set [OF assms r]
  from rs(3) have "valid (blocks (st c') ! unat r) \<and>
      tag (blocks (st c') ! unat r) = getTag ?p addr \<and>
      id_blk (blocks (st c') ! unat r) = getId ?p addr"
    by (simp add: st installed_def)
  with rs(1,2)
  show "\<exists>k. unat (getId ?p addr) * unat (associativity ?p) \<le> k \<and>
            k < unat (getId ?p addr) * unat (associativity ?p) + unat (associativity ?p) \<and>
            valid (blocks (st c') ! k) \<and> tag (blocks (st c') ! k) = getTag ?p addr \<and>
            id_blk (blocks (st c') ! k) = getId ?p addr"
    by blast
next
  assume "world_ok w \<and> need c w \<le> n + 1"
  with assms have "ready (n + 1) c w" by (simp add: ready_def)
  then show "\<exists>c' w'. fetch n addr c w = Inr (c', w')"
    by (rule fetch_total)
qed

lemma policy_ok_examples:
  "policy_ok tinyMiss" "policy_ok lowerPolicy"
  by (simp_all add: policy_ok_def tinyMiss_def lowerPolicy_def offsetBits_def idBits_def
      log2i_def bit_width_pos)

lemma cache_ok_examples:
  "cache_ok dirtyExample" "cache_ok lowerExample"
  by (simp_all add: dirtyExample_def lowerExample_def policy_ok_examples block_ok_def
      initBlock_def less_Suc_eq)
     (simp_all add: tinyMiss_def lowerPolicy_def)

lemma need_examples:
  "world_ok ([lowerExample], MemoryManager)"
  "need dirtyExample ([lowerExample], MemoryManager) = 6"
  by (simp_all add: world_ok_def cache_ok_examples need_def)
     (simp add: dirtyExample_def lowerExample_def)

theorem fetch_then_inCache_witness:
  "cache_ok dirtyExample \<and> world_ok ([lowerExample], MemoryManager) \<and>
   need dirtyExample ([lowerExample], MemoryManager) \<le> 5 + 1 \<and>
   inCache dirtyExample 2 = Inr False \<and> \<not> isl dirtyFetch \<and>
   inCache (fst (projr dirtyFetch)) 2 = Inr True"
proof -
  have ran: "\<not> isl dirtyFetch"
    by code_simp
  have run: "fetch 5 2 dirtyExample ([lowerExample], MemoryManager) =
               Inr (fst (projr dirtyFetch), snd (projr dirtyFetch))"
    using Inr_projr [OF ran] by (simp add: dirtyFetch_def)
  have absent: "inCache dirtyExample 2 = Inr False"
    by code_simp
  from fetch_then_inCache [OF cache_ok_examples(1), of 5 2 "([lowerExample], MemoryManager)"]
  have "\<forall>c' w'. fetch 5 2 dirtyExample ([lowerExample], MemoryManager) = Inr (c', w') \<longrightarrow>
          inCache c' 2 = Inr True"
    by blast
  then have "inCache (fst (projr dirtyFetch)) 2 = Inr True"
    using run by blast
  with absent ran cache_ok_examples(1) need_examples
  show ?thesis by simp
qed

section \<open>The hierarchy through a trace\<close>

lemma hier_evolves_refl [simp]: "hier_evolves h h"
  by (simp add: hier_evolves_def)

lemma hier_evolves_trans: "hier_evolves a b \<Longrightarrow> hier_evolves b c \<Longrightarrow> hier_evolves a c"
  by (auto simp: hier_evolves_def intro: evolves_trans)

lemma hier_evolves_keeps:
  assumes "hier_evolves h h'"
  shows "hier_balanced h \<Longrightarrow> hier_balanced h'"
    and "hier_ok h \<Longrightarrow> hier_ok h'"
    and "hier_need h' = hier_need h"
  using assms
  by (simp_all add: hier_evolves_def hier_balanced_def hier_ok_def hier_need_def need_def
      l1World_def evolves_def)

lemma hier_ready:
  "ready n (l1Cache h) (l1World h) = (hier_ok h \<and> hier_need h \<le> n)"
  by (auto simp: ready_def hier_ok_def hier_need_def world_ok_def l1World_def)

lemma afterL1_Inr:
  assumes "evolves (l1Cache h) c1" and "evolvesW (l1World h) w'"
  shows "\<exists>h'. afterL1 h (c1, w') = Inr h' \<and> l1Cache h' = c1 \<and> l1World h' = w' \<and>
           hier_evolves h h' \<and> prefetchStatistics h' = prefetchStatistics h \<and>
           memoryManager h' = snd w'"
  using assms
  by (cases w')
     (auto simp: evolvesW_def l1World_def afterL1_def list_all2_Cons1 hier_evolves_def)

lemma ensurePage_evolves [simp]:
  "hier_evolves h (h\<lparr>memoryManager := m\<rparr>)"
  by (simp add: hier_evolves_def)

lemma read_total:
  fixes c :: "('n::comm_ring_1, 'c::comm_ring_1) cache"
  assumes "ready n c w"
  shows "\<exists>val c' w'. read n addr c w = Inr (val, c', w')"
proof -
  from assms have ok: "cache_ok c" by (simp add: ready_def)
  from inCache_total [OF ok, of addr] obtain hit where hit: "inCache c addr = Inr hit"
    by blast
  from getByte_totalD [OF methods_total [THEN conjunct1] probe_ready [OF assms], of addr hit True]
    hit
  show ?thesis
    by (auto simp: read_def Let_def countAccess_eq)
qed

lemma write_total:
  fixes c :: "('n::comm_ring_1, 'c::comm_ring_1) cache"
  assumes "ready n c w"
  shows "\<exists>c' w'. write_c n addr val c w = Inr (c', w')"
proof -
  from assms have ok: "cache_ok c" by (simp add: ready_def)
  from inCache_total [OF ok, of addr] obtain hit where hit: "inCache c addr = Inr hit"
    by blast
  from setByte_totalD [OF methods_total [THEN conjunct2, THEN conjunct1]
      probe_ready [OF assms], of addr val hit False] hit
  show ?thesis
    by (auto simp: write_c_def Let_def countAccess_eq)
qed

lemma dispatchAccess_evolves:
  assumes "dispatchAccess n operation addr h = Inr h'"
  shows "hier_evolves h h'" and "prefetchStatistics h' = prefetchStatistics h"
proof -
  have "hier_evolves h h' \<and> prefetchStatistics h' = prefetchStatistics h"
  proof (cases "operation = CHR ''r''")
    case True
    with assms obtain val c' w' where r: "read n addr (l1Cache h) (l1World h) = Inr (val, c', w')"
      and a: "afterL1 h (c', w') = Inr h'"
      by (auto simp: dispatchAccess_def split: sum.splits)
    from afterL1_Inr [OF read_evolves [OF r]] a show ?thesis by auto
  next
    case False
    with assms obtain c' w' where r: "write_c n addr 0 (l1Cache h) (l1World h) = Inr (c', w')"
      and a: "afterL1 h (c', w') = Inr h'"
      by (auto simp: dispatchAccess_def split: sum.splits if_splits)
    from afterL1_Inr [OF write_evolves [OF r]] a show ?thesis by auto
  qed
  then show "hier_evolves h h'" and "prefetchStatistics h' = prefetchStatistics h"
    by simp_all
qed

lemma dispatchAccess_total:
  fixes h :: "('n::comm_ring_1, 'c::comm_ring_1) CacheHierarchy"
  assumes "hier_ok h" and "hier_need h \<le> n"
    and "operation = CHR ''r'' \<or> operation = CHR ''w''"
  shows "\<exists>h'. dispatchAccess n operation addr h = Inr h'"
proof -
  from assms(1,2) have rdy: "ready n (l1Cache h) (l1World h)"
    by (simp add: hier_ready)
  show ?thesis
  proof (cases "operation = CHR ''r''")
    case True
    from read_total [OF rdy, of addr] obtain val c' w' where
      r: "read n addr (l1Cache h) (l1World h) = Inr (val, c', w')" by blast
    from afterL1_Inr [OF read_evolves [OF r]] r True show ?thesis
      by (auto simp: dispatchAccess_def)
  next
    case False
    with assms(3) have w: "operation = CHR ''w''" by simp
    from write_total [OF rdy, of addr 0] obtain c' w' where
      r: "write_c n addr 0 (l1Cache h) (l1World h) = Inr (c', w')" by blast
    from afterL1_Inr [OF write_evolves [OF r]] r w show ?thesis
      by (auto simp: dispatchAccess_def)
  qed
qed

lemma prefetchStep_evolves:
  assumes "prefetchStep n addr h = Inr h'"
  shows "hier_evolves h h'"
proof (cases "isPrefetching (prefetchStatistics h)")
  case True
  let ?h1 = "h\<lparr>memoryManager := ensurePage (memoryManager h)
                (prefetchAddr (prefetchStatistics h) addr)\<rparr>"
  from assms True obtain c' w' h2 where
    f: "fetch n (prefetchAddr (prefetchStatistics h) addr) (l1Cache ?h1) (l1World ?h1) =
          Inr (c', w')"
    and a: "afterL1 ?h1 (c', w') = Inr h2"
    and h': "h' = h2\<lparr>prefetchStatistics := updatePrefetchStatistics (prefetchStatistics h2) addr\<rparr>"
    by (auto simp: prefetchStep_def Let_def split: sum.splits)
  from afterL1_Inr [OF fetch_evolves(1,2) [OF f]] a have "hier_evolves ?h1 h2" by auto
  then show ?thesis
    by (simp add: h' hier_evolves_def)
next
  case False
  with assms show ?thesis
    by (auto simp: prefetchStep_def hier_evolves_def)
qed

lemma prefetchStep_total:
  fixes h :: "('n::comm_ring_1, 'c::comm_ring_1) CacheHierarchy"
  assumes "hier_ok h" and "hier_need h \<le> n + 1"
  shows "\<exists>h'. prefetchStep n addr h = Inr h'"
proof (cases "isPrefetching (prefetchStatistics h)")
  case True
  let ?h1 = "h\<lparr>memoryManager := ensurePage (memoryManager h)
                (prefetchAddr (prefetchStatistics h) addr)\<rparr>"
  from assms have "ready (n + 1) (l1Cache ?h1) (l1World ?h1)"
    by (simp add: ready_def world_ok_def hier_ok_def hier_need_def need_def l1World_def)
  from fetch_total [OF this, of "prefetchAddr (prefetchStatistics h) addr"] obtain c' w' where
    f: "fetch n (prefetchAddr (prefetchStatistics h) addr) (l1Cache ?h1) (l1World ?h1) =
          Inr (c', w')" by blast
  from afterL1_Inr [OF fetch_evolves(1,2) [OF f]] f True show ?thesis
    by (auto simp: prefetchStep_def Let_def)
next
  case False
  then show ?thesis
    by (simp add: prefetchStep_def)
qed

lemma processMemoryAccess_evolves:
  assumes "processMemoryAccess n operation addr h = Inr h'"
  shows "hier_evolves h h'"
proof -
  let ?h1 = "h\<lparr>memoryManager := ensurePage (memoryManager h) addr\<rparr>"
  from assms obtain h2 where
    p: "(if enablePrefetch ?h1 then prefetchStep n addr ?h1 else Inr ?h1) = Inr h2"
    and d: "dispatchAccess n operation addr h2 = Inr h'"
    by (auto simp: processMemoryAccess_def Let_def split: sum.splits)
  from p have "hier_evolves ?h1 h2"
    by (auto split: if_splits dest: prefetchStep_evolves)
  with ensurePage_evolves [of h] have "hier_evolves h h2"
    by (rule hier_evolves_trans)
  with dispatchAccess_evolves(1) [OF d] show ?thesis
    by (blast intro: hier_evolves_trans)
qed

lemma processMemoryAccess_total:
  fixes h :: "('n::comm_ring_1, 'c::comm_ring_1) CacheHierarchy"
  assumes "hier_ok h" and "hier_need h \<le> n"
    and "operation = CHR ''r'' \<or> operation = CHR ''w''"
  shows "\<exists>h'. processMemoryAccess n operation addr h = Inr h'"
proof -
  let ?h1 = "h\<lparr>memoryManager := ensurePage (memoryManager h) addr\<rparr>"
  from assms(1,2) have ok1: "hier_ok ?h1" and nd1: "hier_need ?h1 \<le> n"
    by (simp_all add: hier_ok_def hier_need_def need_def l1World_def)
  have "\<exists>h2. (if enablePrefetch ?h1 then prefetchStep n addr ?h1 else Inr ?h1) = Inr h2"
    using prefetchStep_total [OF ok1, of n addr] nd1 by simp
  then obtain h2 where
    p: "(if enablePrefetch ?h1 then prefetchStep n addr ?h1 else Inr ?h1) = Inr h2" by blast
  from p have "hier_evolves ?h1 h2"
    by (auto split: if_splits dest: prefetchStep_evolves)
  from hier_evolves_keeps(2,3) [OF this] ok1 nd1 have "hier_ok h2" "hier_need h2 \<le> n"
    by simp_all
  from dispatchAccess_total [OF this assms(3), of addr] p show ?thesis
    by (auto simp: processMemoryAccess_def Let_def)
qed

lemma processTrace_evolves:
  assumes "processTrace n trace h = Inr h'"
  shows "hier_evolves h h'"
  using assms
proof (induction trace arbitrary: h)
  case Nil
  then show ?case by simp
next
  case (Cons a trace)
  obtain operation addr where a: "a = (operation, addr)" by (cases a)
  with Cons.prems obtain h1 where s: "processMemoryAccess n operation addr h = Inr h1"
    and t: "processTrace n trace h1 = Inr h'"
    by (auto split: sum.splits)
  from processMemoryAccess_evolves [OF s] Cons.IH [OF t] show ?case
    by (rule hier_evolves_trans)
qed

lemma processTrace_total:
  fixes h :: "('n::comm_ring_1, 'c::comm_ring_1) CacheHierarchy"
  assumes "hier_ok h" and "hier_need h \<le> n"
    and "\<forall>a\<in>set trace. fst a = CHR ''r'' \<or> fst a = CHR ''w''"
  shows "\<exists>h'. processTrace n trace h = Inr h'"
  using assms
proof (induction trace arbitrary: h)
  case Nil
  then show ?case by simp
next
  case (Cons a trace)
  obtain operation addr where a: "a = (operation, addr)" by (cases a)
  with Cons.prems(3) have op: "operation = CHR ''r'' \<or> operation = CHR ''w''" by simp
  from processMemoryAccess_total [OF Cons.prems(1,2) op, of addr] obtain h1 where
    s: "processMemoryAccess n operation addr h = Inr h1" by blast
  note k = hier_evolves_keeps(2,3) [OF processMemoryAccess_evolves [OF s]]
  from Cons.prems(3) have "\<forall>a\<in>set trace. fst a = CHR ''r'' \<or> fst a = CHR ''w''" by simp
  from Cons.IH [OF k(1) [OF Cons.prems(1)] _ this] k(2) Cons.prems(2) s a show ?case
    by simp
qed

section \<open>Constructed caches\<close>

lemma newCache_fields:
  assumes "newCache p = Inr c"
  shows "isPolicyValid p = Inr True"
    and "c = Cache \<lparr>blocks = map (\<lambda>idx. initBlock p (of_nat idx)) [0 ..< unat (blockNum p)],
               referenceCounter = 0, policy = p, statistics = zeroStatistics,
               enableFifo = False, enableVictimCache = False\<rparr> None"
  using assms by (auto simp: newCache_def split: sum.splits if_splits)

lemma newCache_balanced:
  assumes "newCache p = Inr c"
  shows "balanced c" and "vdepth c = 0"
  by (simp_all add: newCache_fields(2) [OF assms] ownBalanced_def zeroStatistics_def)

lemma newCache_ok:
  assumes "newCache p = Inr c" and "policy_ok p"
  shows "cache_ok c"
  by (simp add: newCache_fields(2) [OF assms(1)] assms(2) block_ok_def initBlock_def)

lemma bit_width_numeral [simp]:
  "bit_width (numeral k) = Suc (bit_width (numeral k div 2))"
  by (rule bit_width_pos) simp

lemma bit_width_1 [simp]: "bit_width (Suc 0) = Suc 0"
  by (simp add: bit_width_pos)

lemma policy_ok_defaults:
  "policy_ok L1" "policy_ok L2" "policy_ok L3" "policy_ok victimCachePolicy"
  by (simp_all add: policy_ok_def L1_def L2_def L3_def victimCachePolicy_def offsetBits_def
      idBits_def log2i_def)

lemma isPolicyValid_defaults:
  "isPolicyValid L1 = Inr True" "isPolicyValid L2 = Inr True" "isPolicyValid L3 = Inr True"
  by (simp_all add: isPolicyValid_def L1_def L2_def L3_def isPowerOfTwo_def)

lemma newCache_defaults:
  "\<exists>c. newCache L1 = Inr (c :: ('n::comm_ring_1, 'c::comm_ring_1) cache)"
  "\<exists>c. newCache L2 = Inr (c :: ('n::comm_ring_1, 'c::comm_ring_1) cache)"
  "\<exists>c. newCache L3 = Inr (c :: ('n::comm_ring_1, 'c::comm_ring_1) cache)"
  by (simp_all add: newCache_def isPolicyValid_defaults)

lemma newCacheHierarchy_fields:
  assumes "newCacheHierarchy prefetch fifo victim = Inr h"
  shows "newCache L1 = Inr (l1Cache h)" and "newCache L2 = Inr (l2Cache h)"
    and "newCache L3 = Inr (l3Cache h)" and "enablePrefetch h = prefetch"
    and "prefetchStatistics h = \<lparr>isPrefetching = False, stride = 0, sameStrideCount = 0,
                            diffStrideCount = 0, lastAccessAddress = 0\<rparr>"
    and "memoryManager h = MemoryManager"
  using assms by (auto simp: newCacheHierarchy_def split: sum.splits)

lemma newCacheHierarchy_total:
  "\<exists>h. newCacheHierarchy prefetch fifo victim =
         Inr (h :: ('n::comm_ring_1, 'c::comm_ring_1) CacheHierarchy)"
  using newCache_defaults [where 'n = 'n and 'c = 'c]
  by (auto simp: newCacheHierarchy_def)

lemma newCacheHierarchy_start:
  assumes "newCacheHierarchy prefetch fifo victim = Inr h"
  shows "hier_balanced h" and "hier_ok h" and "hier_need h = 9"
proof -
  note f = newCacheHierarchy_fields [OF assms]
  show "hier_balanced h"
    by (simp add: hier_balanced_def newCache_balanced(1) [OF f(1)]
        newCache_balanced(1) [OF f(2)] newCache_balanced(1) [OF f(3)])
  show "hier_ok h"
    by (simp add: hier_ok_def newCache_ok [OF f(1)] newCache_ok [OF f(2)]
        newCache_ok [OF f(3)] policy_ok_defaults)
  show "hier_need h = 9"
    by (simp add: hier_need_def need_def l1World_def newCache_balanced(2) [OF f(1)]
        newCache_balanced(2) [OF f(2)] newCache_balanced(2) [OF f(3)])
qed

lemma read_counters:
  assumes "read n addr c w = Inr (val, c', w')"
  shows "\<exists>hit. inCache c addr = Inr hit \<and>
           probed True hit (statistics (st c)) (statistics (st c'))"
proof -
  from read_effect [OF assms] obtain hit where hit: "inCache c addr = Inr hit"
    and g: "getByte n addr (countLookup hit (map_statistics (countAccess True) c)) w =
          Inr (val, c', w')" by blast
  from probed_sameCounters [OF probed_countLookup getByte_evolves(3) [OF g]] hit
  show ?thesis by blast
qed

lemma write_counters:
  assumes "write_c n addr val c w = Inr (c', w')"
  shows "\<exists>hit. inCache c addr = Inr hit \<and>
           probed False hit (statistics (st c)) (statistics (st c'))"
proof -
  from write_effect [OF assms] obtain hit where hit: "inCache c addr = Inr hit"
    and g: "setByte n addr val (countLookup hit (map_statistics (countAccess False) c)) w =
          Inr (c', w')" by blast
  from probed_sameCounters [OF probed_countLookup setByte_evolves(3) [OF g]] hit
  show ?thesis by blast
qed

text \<open>
  Claim C1. For every trace and every hierarchy whose caches (at the three levels, victim
  caches included, whatever the flags of prefetch, FIFO and victim cache) satisfy
  \<open>numHit + numMiss = numRead + numWrite\<close>, the caches satisfy it after the trace, and the
  caches of a fresh hierarchy do. \<^verbatim>\<open>read\<close> and \<^verbatim>\<open>write\<close> add one to \<open>numRead\<close> or
  \<open>numWrite\<close> and to exactly one of \<open>numHit\<close> and \<open>numMiss\<close>; the probe of a load into the
  lower cache does the same there; \<^verbatim>\<open>fetch\<close>, \<^verbatim>\<open>getByte\<close>, \<^verbatim>\<open>setByte\<close> and
  \<^verbatim>\<open>writeBlockToLowerLevel\<close> leave the four counters of the cache as they were, and a
  write-back leaves those of the lower cache.
\<close>

theorem counters_balanced:
  fixes h :: "('n::comm_ring_1, 'c::comm_ring_1) CacheHierarchy"
    and c :: "('n::comm_ring_1, 'c::comm_ring_1) cache"
  shows "(hier_balanced h \<and> processTrace n trace h = Inr h' \<longrightarrow> hier_balanced h') \<and>
         (newCacheHierarchy prefetch fifo victim = Inr h \<longrightarrow> hier_balanced h) \<and>
         (read k addr c w = Inr (val, c', w') \<longrightarrow>
            (\<exists>hit. inCache c addr = Inr hit \<and>
               probed True hit (statistics (st c)) (statistics (st c')))) \<and>
         (write_c k addr val c w = Inr (c', w') \<longrightarrow>
            (\<exists>hit. inCache c addr = Inr hit \<and>
               probed False hit (statistics (st c)) (statistics (st c')))) \<and>
         (loadBlockFromLowerLevel k addr isRead c (l # rest, m) = Inr (c', w') \<and>
          \<not> enableVictimCache (st c) \<longrightarrow>
            sameCounters (statistics (st c)) (statistics (st c')) \<and>
            (\<exists>hit l' rest' m'.
               inCache l (blockAddrBegin (policy (st c)) addr) = Inr hit \<and>
               w' = (l' # rest', m') \<and>
               probed isRead hit (statistics (st l)) (statistics (st l')))) \<and>
         (fetch k addr c w = Inr (c', w') \<longrightarrow>
            sameCounters (statistics (st c)) (statistics (st c'))) \<and>
         (getByte k addr c w = Inr (val, c', w') \<longrightarrow>
            sameCounters (statistics (st c)) (statistics (st c'))) \<and>
         (setByte k addr val c w = Inr (c', w') \<longrightarrow>
            sameCounters (statistics (st c)) (statistics (st c'))) \<and>
         (writeBlockToLowerLevel k b c (l # rest, m) = Inr (c', w') \<longrightarrow>
            st c' = st c \<and>
            (enabledVictim c = None \<longrightarrow>
               (\<exists>l' rest' m'. w' = (l' # rest', m') \<and>
                  sameCounters (statistics (st l)) (statistics (st l')))))"
proof (intro conjI impI)
  assume "hier_balanced h \<and> processTrace n trace h = Inr h'"
  then show "hier_balanced h'"
    using hier_evolves_keeps(1) [OF processTrace_evolves] by blast
next
  assume "newCacheHierarchy prefetch fifo victim = Inr h"
  then show "hier_balanced h" by (rule newCacheHierarchy_start(1))
next
  assume "read k addr c w = Inr (val, c', w')"
  then show "\<exists>hit. inCache c addr = Inr hit \<and>
               probed True hit (statistics (st c)) (statistics (st c'))"
    by (rule read_counters)
next
  assume "write_c k addr val c w = Inr (c', w')"
  then show "\<exists>hit. inCache c addr = Inr hit \<and>
               probed False hit (statistics (st c)) (statistics (st c'))"
    by (rule write_counters)
next
  assume a: "loadBlockFromLowerLevel k addr isRead c (l # rest, m) = Inr (c', w') \<and>
          \<not> enableVictimCache (st c)"
  then show "sameCounters (statistics (st c)) (statistics (st c'))"
    using load_effect_evolves(2) [OF load_evolves(1)] by blast
  from a show "\<exists>hit l' rest' m'.
               inCache l (blockAddrBegin (policy (st c)) addr) = Inr hit \<and>
               w' = (l' # rest', m') \<and>
               probed isRead hit (statistics (st l)) (statistics (st l'))"
    using load_lower_counters by blast
next
  assume "fetch k addr c w = Inr (c', w')"
  then show "sameCounters (statistics (st c)) (statistics (st c'))"
    by (rule fetch_evolves(3))
next
  assume "getByte k addr c w = Inr (val, c', w')"
  then show "sameCounters (statistics (st c)) (statistics (st c'))"
    by (rule getByte_evolves(3))
next
  assume "setByte k addr val c w = Inr (c', w')"
  then show "sameCounters (statistics (st c)) (statistics (st c'))"
    by (rule setByte_evolves(3))
next
  assume a: "writeBlockToLowerLevel k b c (l # rest, m) = Inr (c', w')"
  then show "st c' = st c"
    by (rule writeBlock_evolves(1))
  assume "enabledVictim c = None"
  with a show "\<exists>l' rest' m'. w' = (l' # rest', m') \<and>
                  sameCounters (statistics (st l)) (statistics (st l'))"
    by (rule writeBlockToLowerLevel_lower_counters)
qed

lemma tinyHierarchy_balanced: "hier_balanced tinyHierarchy"
  by (simp add: hier_balanced_def tinyHierarchy_def dirtyExample_def lowerExample_def
      ownBalanced_def zeroStatistics_def)

lemma tinyHierarchy_ok: "hier_ok tinyHierarchy" "hier_need tinyHierarchy = 9"
  by (simp_all add: hier_ok_def hier_need_def need_def l1World_def tinyHierarchy_def
      cache_ok_examples)
     (simp add: dirtyExample_def lowerExample_def)

lemma tinyTrace_returns: "\<not> isl (processTrace 9 tinyTrace tinyHierarchy)"
proof -
  have "\<exists>h'. processTrace 9 tinyTrace tinyHierarchy = Inr h'"
    by (rule processTrace_total) (simp_all add: tinyHierarchy_ok tinyTrace_def)
  then show ?thesis by auto
qed

theorem counters_balanced_witness:
  "hier_balanced tinyHierarchy \<and> \<not> isl (processTrace 9 tinyTrace tinyHierarchy) \<and>
   hier_balanced (projr (processTrace 9 tinyTrace tinyHierarchy))"
proof -
  from tinyTrace_returns
  have "processTrace 9 tinyTrace tinyHierarchy =
          Inr (projr (processTrace 9 tinyTrace tinyHierarchy))"
    by simp
  with counters_balanced [of tinyHierarchy 9 tinyTrace
      "projr (processTrace 9 tinyTrace tinyHierarchy)"] tinyHierarchy_balanced
  have "hier_balanced (projr (processTrace 9 tinyTrace tinyHierarchy))"
    by blast
  with tinyHierarchy_balanced tinyTrace_returns show ?thesis
    by blast
qed

section \<open>Reachable caches\<close>

lemma setVictimCache_ok:
  fixes c :: "('n::comm_ring_1, 'c::comm_ring_1) cache"
  assumes "cache_ok c" and "setVictimCache enable c = Inr c'"
  shows "cache_ok c'"
proof (cases enable)
  case True
  with assms(2) obtain v :: "('n, 'c) cache" where v: "newCache victimCachePolicy = Inr v"
    and c': "c' = Cache ((st c)\<lparr>enableVictimCache := True\<rparr>) (Some v)"
    by (auto simp: setVictimCache_def split: sum.splits)
  from newCache_ok [OF v policy_ok_defaults(4)] assms(1) show ?thesis
    by (simp add: c' cache_ok_eq [of c])
next
  case False
  with assms show ?thesis
    by (auto simp: setVictimCache_def cache_ok_eq [of c])
qed

lemma stepped_ok:
  assumes "cache_ok c" and "\<forall>l\<in>set (fst w). cache_ok l"
    and "evolves c c'" and "evolvesW w w'" and "x \<in> set (c' # fst w')"
  shows "cache_ok x"
proof -
  from assms(2) have "world_ok w" by (simp add: world_ok_def list_all_iff)
  from evolvesW_chain(2) [OF assms(4) this] have "\<forall>l\<in>set (fst w'). cache_ok l"
    by (simp add: world_ok_def list_all_iff)
  with assms(1,3,5) show ?thesis
    by (auto simp: evolves_def)
qed

lemma writeBlock_evolves_cache:
  assumes "writeBlockToLowerLevel n b c w = Inr (c', w')"
  shows "evolves c c'"
  using writeBlock_evolves [OF assms]
  by (intro evolvesI) (simp_all add: cache_ok_eq [of c])

lemma reachable_ok:
  assumes "reachable c"
  shows "cache_ok c"
  using assms
proof (induction rule: reachable.induct)
  case (constructed p c)
  then show ?case by (rule newCache_ok)
next
  case (victim_set c enable c')
  then show ?case by (simp add: setVictimCache_ok)
next
  case (victim_of c v)
  then show ?case by (simp add: cache_ok_eq [of c])
next
  case (invalidated c addr c')
  with setInvalid_evolves(1) [OF invalidated.hyps(2)] show ?case
    by (simp add: evolves_def)
next
  case (by_read c w n addr val c' w' x)
  from by_read.IH have a: "cache_ok c" and b: "\<forall>l\<in>set (fst w). cache_ok l" by simp_all
  note e = read_evolves [OF by_read.hyps(2)]
  show ?case by (rule stepped_ok [OF a b e by_read.hyps(3)])
next
  case (by_write c w n addr val c' w' x)
  from by_write.IH have a: "cache_ok c" and b: "\<forall>l\<in>set (fst w). cache_ok l" by simp_all
  note e = write_evolves [OF by_write.hyps(2)]
  show ?case by (rule stepped_ok [OF a b e by_write.hyps(3)])
next
  case (by_fetch c w n addr c' w' x)
  from by_fetch.IH have a: "cache_ok c" and b: "\<forall>l\<in>set (fst w). cache_ok l" by simp_all
  note e = fetch_evolves(1,2) [OF by_fetch.hyps(2)]
  show ?case by (rule stepped_ok [OF a b e by_fetch.hyps(3)])
next
  case (by_getByte c w n addr val c' w' x)
  from by_getByte.IH have a: "cache_ok c" and b: "\<forall>l\<in>set (fst w). cache_ok l" by simp_all
  note e = getByte_evolves(1,2) [OF by_getByte.hyps(2)]
  show ?case by (rule stepped_ok [OF a b e by_getByte.hyps(3)])
next
  case (by_setByte c w n addr val c' w' x)
  from by_setByte.IH have a: "cache_ok c" and b: "\<forall>l\<in>set (fst w). cache_ok l" by simp_all
  note e = setByte_evolves(1,2) [OF by_setByte.hyps(2)]
  show ?case by (rule stepped_ok [OF a b e by_setByte.hyps(3)])
next
  case (by_load c w n addr isRead c' w' x)
  from by_load.IH have a: "cache_ok c" and b: "\<forall>l\<in>set (fst w). cache_ok l" by simp_all
  note e = load_effect_evolves(1) [OF load_evolves(1) [OF by_load.hyps(2)]]
    load_evolves(2) [OF by_load.hyps(2)]
  show ?case by (rule stepped_ok [OF a b e by_load.hyps(3)])
next
  case (by_writeBlock c w n b c' w' x)
  from by_writeBlock.IH have a: "cache_ok c" and b: "\<forall>l\<in>set (fst w). cache_ok l"
    by simp_all
  note e = writeBlock_evolves_cache [OF by_writeBlock.hyps(2)]
    writeBlock_evolves(3) [OF by_writeBlock.hyps(2)]
  show ?case by (rule stepped_ok [OF a b e by_writeBlock.hyps(3)])
qed

lemma cache_ok_ids:
  assumes "cache_ok c" and "i < length (blocks (st c))"
  shows "id_blk (blocks (st c) ! i) = of_nat i div associativity (policy (st c))"
  using assms by (simp add: cache_ok_eq [of c] block_ok_def)

lemma getBlockId_no_InconsistentID:
  assumes "cache_ok c"
  shows "getBlockId c addr \<noteq> Inl InconsistentID"
  using getBlockId_total [OF assms, of addr] by auto

lemma setInvalid_ids:
  assumes "setInvalid addr c = Inr c'"
  shows "map id_blk (blocks (st c')) = map id_blk (blocks (st c))"
  using assms
  by (auto simp: setInvalid_def updateBlock_def map_update list_update_same_conv
      split: sum.splits if_splits)

lemma load_installs_in_set:
  assumes ok: "cache_ok c"
    and run: "loadBlockFromLowerLevel n addr isRead c w = Inr (c', w')"
  shows "\<exists>(r :: u32) nb. blocks (st c') = (blocks (st c))[unat r := nb] \<and>
           unat r < length (blocks (st c)) \<and>
           id_blk nb = getId (policy (st c)) addr \<and>
           of_nat (unat r) div associativity (policy (st c)) = getId (policy (st c)) addr"
proof -
  let ?p = "policy (st c)"
  from load_evolves(1) [OF run] obtain r rb bytes where
    r: "getReplacementBlockId c (getId ?p addr * associativity ?p)
          ((getId ?p addr + 1) * associativity ?p) = Inr r"
    and st: "st c' = installed addr r rb bytes (st c)"
    unfolding load_effect_def Let_def by blast
  note rs = replaced_in_set [OF ok r]
  let ?nb = "\<lparr>valid = True, modified = False, tag = getTag ?p addr,
              id_blk = getId ?p addr, size_blk = blockSize ?p,
              lastReference = referenceCounter (st c), createdAt = referenceCounter (st c),
              data = bytes\<rparr>"
  have b: "blocks (st c') = (blocks (st c))[unat r := ?nb]"
    by (simp add: st installed_def)
  have i: "id_blk ?nb = getId ?p addr"
    by simp
  from word_div_in_set [OF rs(1,2)] rs(3) b i
  have k: "blocks (st c') = (blocks (st c))[unat r := ?nb] \<and>
           unat r < length (blocks (st c)) \<and> id_blk ?nb = getId ?p addr \<and>
           of_nat (unat r) div associativity ?p = getId ?p addr"
    by (intro conjI)
  show ?thesis
    by (rule exI [of _ r], rule exI [of _ ?nb]) (rule k)
qed

text \<open>
  Claim C9. In every reachable cache, the block at index \<open>i\<close> has the set id
  \<open>i / associativity\<close>, and \<^verbatim>\<open>getBlockId\<close> never takes the branch of the error
  "Inconsistent ID" (it returns a slot or the sentinel). \<^verbatim>\<open>setInvalid\<close> changes no id, and
  \<^verbatim>\<open>loadBlockFromLowerLevel\<close> installs a block that carries the decoded set id of the
  address in a slot of that set.
\<close>

theorem structural_set_id:
  assumes "reachable c"
  shows "(\<forall>i<length (blocks (st c)).
            id_blk (blocks (st c) ! i) = of_nat i div associativity (policy (st c))) \<and>
         (\<forall>addr. getBlockId c addr \<noteq> Inl InconsistentID \<and>
                 (\<exists>r. getBlockId c addr = Inr r)) \<and>
         (\<forall>addr c'. setInvalid addr c = Inr c' \<longrightarrow>
            map id_blk (blocks (st c')) = map id_blk (blocks (st c))) \<and>
         (\<forall>n addr isRead w c' w'.
            loadBlockFromLowerLevel n addr isRead c w = Inr (c', w') \<longrightarrow>
            (\<exists>(r :: u32) nb. blocks (st c') = (blocks (st c))[unat r := nb] \<and>
               unat r < length (blocks (st c)) \<and>
               id_blk nb = getId (policy (st c)) addr \<and>
               of_nat (unat r) div associativity (policy (st c)) = getId (policy (st c)) addr))"
proof -
  note ok = reachable_ok [OF assms]
  show ?thesis
  proof (intro conjI allI impI)
    fix i assume "i < length (blocks (st c))"
    with ok show "id_blk (blocks (st c) ! i) = of_nat i div associativity (policy (st c))"
      by (rule cache_ok_ids)
  next
    fix addr
    show "getBlockId c addr \<noteq> Inl InconsistentID"
      using ok by (rule getBlockId_no_InconsistentID)
    show "\<exists>r. getBlockId c addr = Inr r"
      using getBlockId_total [OF ok, of addr] by blast
  next
    fix addr c'
    assume "setInvalid addr c = Inr c'"
    then show "map id_blk (blocks (st c')) = map id_blk (blocks (st c))"
      by (rule setInvalid_ids)
  next
    fix n addr isRead w c' w'
    assume "loadBlockFromLowerLevel n addr isRead c w = Inr (c', w')"
    with ok show "\<exists>(r :: u32) nb. blocks (st c') = (blocks (st c))[unat r := nb] \<and>
               unat r < length (blocks (st c)) \<and>
               id_blk nb = getId (policy (st c)) addr \<and>
               of_nat (unat r) div associativity (policy (st c)) = getId (policy (st c)) addr"
      by (rule load_installs_in_set)
  qed
qed

lemma dirtyExample_reachable: "reachable dirtyExample"
proof -
  have "reachable freshTiny"
    using dirtyExample_reached(1) policy_ok_examples(1) by (rule reachable.constructed)
  then show ?thesis
    by (rule reachable.by_write [OF _ _ dirtyExample_reached(2)]) simp_all
qed

theorem structural_set_id_witness:
  "reachable dirtyExample \<and> valid (blocks (st dirtyExample) ! 0) \<and>
   id_blk (blocks (st dirtyExample) ! 0) = of_nat 0 div associativity (policy (st dirtyExample)) \<and>
   getBlockId dirtyExample 0 = Inr 0 \<and> getBlockId dirtyExample 0 \<noteq> Inl InconsistentID"
proof -
  have g: "getBlockId dirtyExample 0 = Inr 0"
    by code_simp
  have v: "valid (blocks (st dirtyExample) ! 0)" "0 < length (blocks (st dirtyExample))"
    by (simp_all add: dirtyExample_def)
  from structural_set_id [OF dirtyExample_reachable] v g dirtyExample_reachable show ?thesis
    by auto
qed

section \<open>The prefetcher\<close>

lemma currentStride_eq: "currentStride ps addr = addr - lastAccessAddress ps"
  by (simp add: currentStride_def)





lemma processMemoryAccess_idle:
  assumes "\<not> (enablePrefetch h \<and> isPrefetching (prefetchStatistics h))"
  shows "processMemoryAccess n operation addr h =
           dispatchAccess n operation addr
             (h\<lparr>memoryManager := ensurePage (memoryManager h) addr,
                prefetchStatistics :=
                  (if enablePrefetch h
                   then updatePrefetchStatistics (prefetchStatistics h) addr
                   else prefetchStatistics h)\<rparr>)"
  using assms
  by (auto simp: processMemoryAccess_def prefetchStep_def Let_def)



text \<open>
  The counter counts the accesses whose delta repeats the delta before: after the five
  accesses \<open>0, 0x40, 0x80, 0xc0, 0x100\<close> from the initial state it is 3 and the
  prefetcher is off, after the sixth access \<open>0x140\<close> it is 4 and the prefetcher is on.
\<close>

lemma strideExample:
  "sameStrideCount (foldl updatePrefetchStatistics initialPrefetch
     [0, 0x40, 0x80, 0xc0, 0x100]) = 3"
  "\<not> isPrefetching (foldl updatePrefetchStatistics initialPrefetch
     [0, 0x40, 0x80, 0xc0, 0x100])"
  "isPrefetching (foldl updatePrefetchStatistics initialPrefetch
     [0, 0x40, 0x80, 0xc0, 0x100, 0x140])"
  by (simp_all add: initialPrefetch_def updatePrefetchStatistics_def countStride_def
      currentStride_eq)

section \<open>Reads in a cache without modified blocks\<close>

lemma clean_bump [simp]:
  "clean (map_st (\<lambda>s. s\<lparr>referenceCounter := referenceCounter s + 1\<rparr>) c) = clean c"
  by (simp add: clean_def)

lemma clean_map_statistics [simp]: "clean (map_statistics f c) = clean c"
  by (simp add: clean_def)

lemma clean_countLookup [simp]: "clean (countLookup hit c) = clean c"
  by (simp add: countLookup_def)

lemma clean_update:
  assumes "clean c" and "blocks (st c') = (blocks (st c))[i := b]"
    and "\<not> (valid b \<and> modified b)"
  shows "clean c'"
  using assms by (auto simp: clean_def dest!: set_update_subset_insert [THEN subsetD])

lemma readBlockByte_clean:
  assumes "readBlockByte blockId addr c = Inr (val, c')" and "clean c"
  shows "clean c'"
proof -
  from assms(1) obtain u where
    u: "updateBlock blockId (\<lambda>b. b\<lparr>lastReference := referenceCounter (st c)\<rparr>) c = Inr u"
    and c': "c' = u"
    by (auto simp: readBlockByte_def split: sum.splits)
  note k = updateBlock_Inr [OF u]
  from assms(2) k(1) have "\<not> (valid (blocks (st c) ! unat blockId) \<and>
      modified (blocks (st c) ! unat blockId))"
    by (simp add: clean_def)
  moreover from k(2) have "blocks (st u) = (blocks (st c))
      [unat blockId := (blocks (st c) ! unat blockId)\<lparr>lastReference := referenceCounter (st c)\<rparr>]"
    by simp
  ultimately show ?thesis
    using clean_update [OF assms(2), of u "unat blockId"] c' by simp
qed

lemma load_effect_clean:
  assumes "load_effect addr c c'" and "clean c"
  shows "statistics (st c') = statistics (st c)" and "clean c'"
proof -
  from assms(1) obtain r rb bytes where
    rb: "blockAt (blocks (st c)) r = Inr rb"
    and st: "st c' = installed addr r rb bytes (st c)"
    unfolding load_effect_def Let_def by blast
  from rb have "rb \<in> set (blocks (st c))"
    by (auto simp: blockAt_def split: if_splits)
  with assms(2) have n: "\<not> (valid rb \<and> modified rb)"
    by (simp add: clean_def)
  then show "statistics (st c') = statistics (st c)"
    by (auto simp: st installed_def)
  show "clean c'"
    by (rule clean_update [OF assms(2), where i = "unat r" and
          b = "\<lparr>valid = True, modified = False, tag = getTag (policy (st c)) addr,
               id_blk = getId (policy (st c)) addr, size_blk = blockSize (policy (st c)),
               lastReference = referenceCounter (st c),
               createdAt = referenceCounter (st c), data = bytes\<rparr>"])
       (simp_all add: st installed_def)
qed

lemma getByte_clean:
  assumes run: "getByte n addr c w = Inr (val, c', w')" and cl: "clean c"
  shows "statistics (st c') = statistics (st c)" and "clean c'"
proof -
  have "statistics (st c') = statistics (st c) \<and> clean c'"
  proof (cases n)
    case 0
    with run show ?thesis by simp
  next
    case (Suc k)
    let ?c1 = "map_st (\<lambda>s. s\<lparr>referenceCounter := referenceCounter s + 1\<rparr>) c"
    from run Suc have run': "Cache_getByte (loadBlockFromLowerLevel k) addr c w =
        Inr (val, c', w')" by simp
    have s1: "statistics (st ?c1) = statistics (st c)" by simp
    have c1: "clean ?c1" using cl by simp
    from run' obtain blockId where b: "getBlockId ?c1 addr = Inr blockId"
      by (auto simp: Cache_getByte_def Let_def split: sum.splits)
    show ?thesis
    proof (cases "blockId \<noteq> - 1")
      case True
      with run' b have rb: "readBlockByte blockId addr ?c1 = Inr (val, c')"
        by (auto simp: Cache_getByte_def Let_def split: sum.splits)
      from readBlockByte_evolves(2) [OF rb] readBlockByte_clean [OF rb c1] s1
      show ?thesis by simp
    next
      case False
      with run' b obtain c2 blockId2 where
        l: "loadBlockFromLowerLevel k addr True ?c1 w = Inr (c2, w')"
        and rb: "readBlockByte blockId2 addr c2 = Inr (val, c')"
        by (auto simp: Cache_getByte_def Let_def split: sum.splits if_splits)
      note e = load_effect_clean [OF load_evolves(1) [OF l] c1]
      from readBlockByte_evolves(2) [OF rb] readBlockByte_clean [OF rb e(2)] e(1) s1
      show ?thesis by simp
    qed
  qed
  then show "statistics (st c') = statistics (st c)" and "clean c'"
    by simp_all
qed

lemma read_clean:
  assumes run: "read n addr c w = Inr (val, c', w')" and cl: "clean c"
  shows "\<exists>hit. inCache c addr = Inr hit \<and>
           statistics (st c') =
             statistics (st (countLookup hit (map_statistics (countAccess True) c)))"
    and "clean c'" and "inCache c' addr = Inr True"
proof -
  from read_effect [OF run] obtain hit where hit: "inCache c addr = Inr hit"
    and g: "getByte n addr (countLookup hit (map_statistics (countAccess True) c)) w =
          Inr (val, c', w')" by blast
  have "clean (countLookup hit (map_statistics (countAccess True) c))"
    using cl by simp
  note k = getByte_clean [OF g this]
  from hit k(1) show "\<exists>hit. inCache c addr = Inr hit \<and>
           statistics (st c') =
             statistics (st (countLookup hit (map_statistics (countAccess True) c)))"
    by blast
  from k(2) show "clean c'" .
  from g show "inCache c' addr = Inr True" by (rule getByte_inCache)
qed

lemma newCache_fresh:
  assumes "newCache p = Inr c" and "policy_ok p"
  shows "clean c" and "inCache c addr = Inr False"
proof -
  note f = newCache_fields(2) [OF assms(1)]
  have inv: "\<forall>b\<in>set (blocks (st c)). \<not> valid b"
    by (auto simp: f initBlock_def)
  then show "clean c"
    by (simp add: clean_def)
  note ok = newCache_ok [OF assms]
  have len: "length (blocks (st c)) = unat (blockNum p)" and pol: "policy (st c) = p"
    by (simp_all add: f)
  note sr = set_range [OF assms(2), of addr]
  have "List.find (\<lambda>k. valid (blocks (st c) ! k) \<and>
                        tag (blocks (st c) ! k) = getTag (policy (st c)) addr)
          [unat (getId (policy (st c)) addr) * unat (associativity (policy (st c)))..<
           unat (getId (policy (st c)) addr) * unat (associativity (policy (st c))) +
           unat (associativity (policy (st c)))] = None"
    using inv sr(3) len pol by (auto simp: find_None_iff)
  with getBlockId_ok [OF ok, of addr] show "inCache c addr = Inr False"
    by (simp add: inCache_def)
qed

lemma processMemoryAccess_read_idle:
  assumes "\<not> enablePrefetch h" and "processMemoryAccess n (CHR ''r'') addr h = Inr h'"
  shows "\<exists>val w w'. read n addr (l1Cache h) w = Inr (val, l1Cache h', w')"
proof -
  let ?h1 = "h\<lparr>memoryManager := ensurePage (memoryManager h) addr,
               prefetchStatistics := prefetchStatistics h\<rparr>"
  from assms have d: "dispatchAccess n (CHR ''r'') addr ?h1 = Inr h'"
    by (simp add: processMemoryAccess_idle)
  then obtain val c' w' where r: "read n addr (l1Cache ?h1) (l1World ?h1) = Inr (val, c', w')"
    and a: "afterL1 ?h1 (c', w') = Inr h'"
    by (auto simp: dispatchAccess_def split: sum.splits)
  from afterL1_Inr [OF read_evolves [OF r]] a have "l1Cache h' = c'" by auto
  with r have "read n addr (l1Cache h) (l1World ?h1) = Inr (val, l1Cache h', w')" by simp
  then show ?thesis by blast
qed

text \<open>
  Claim C8. The hierarchy with the default policies and no prefetch, FIFO or victim cache
  is constructed; with a call-depth budget that covers its three levels, the trace
  \<^verbatim>\<open>r 0\<close>, \<^verbatim>\<open>r 0\<close> is processed to the end and leaves the L1 statistics \<open>numRead = 2\<close>,
  \<open>numWrite = 0\<close>, \<open>numHit = 1\<close>, \<open>numMiss = 1\<close>, \<open>totalCycles = 9\<close>. The first read
  misses, in a cache without a valid block, and leaves \<open>numRead = 1\<close>, \<open>numMiss = 1\<close>,
  \<open>totalCycles = 8\<close>: no write-back penalty is added. The second read hits.
\<close>

theorem two_reads_of_zero:
  assumes "9 \<le> n"
  shows "\<exists>(h0 :: ('n::comm_ring_1, 'c::comm_ring_1) CacheHierarchy) h1 h2.
           newCacheHierarchy False False False = Inr h0 \<and>
           (\<forall>b\<in>set (blocks (st (l1Cache h0))). \<not> valid b) \<and>
           inCache (l1Cache h0) 0 = Inr False \<and>
           processMemoryAccess n (CHR ''r'') 0 h0 = Inr h1 \<and>
           statistics (st (l1Cache h1)) =
             \<lparr>numRead = 1, numWrite = 0, numHit = 0, numMiss = 1, totalCycles = 8\<rparr> \<and>
           inCache (l1Cache h1) 0 = Inr True \<and>
           processMemoryAccess n (CHR ''r'') 0 h1 = Inr h2 \<and>
           processTrace n [(CHR ''r'', 0), (CHR ''r'', 0)] h0 = Inr h2 \<and>
           statistics (st (l1Cache h2)) =
             \<lparr>numRead = 2, numWrite = 0, numHit = 1, numMiss = 1, totalCycles = 9\<rparr>"
proof -
  from newCacheHierarchy_total obtain h0 :: "('n, 'c) CacheHierarchy" where
    h0: "newCacheHierarchy False False False = Inr h0" by blast
  note f = newCacheHierarchy_fields [OF h0]
  note s = newCacheHierarchy_start [OF h0]
  note fr = newCache_fresh [OF f(1) policy_ok_defaults(1)]
  have l1: "st (l1Cache h0) =
      \<lparr>blocks = map (\<lambda>idx. initBlock L1 (of_nat idx)) [0 ..< unat (blockNum L1)],
       referenceCounter = 0, policy = L1, statistics = zeroStatistics,
       enableFifo = False, enableVictimCache = False\<rparr>"
    using newCache_fields(2) [OF f(1)] by simp
  have inv: "\<forall>b\<in>set (blocks (st (l1Cache h0))). \<not> valid b"
    by (auto simp: l1 initBlock_def)
  from s(3) assms have nd: "hier_need h0 \<le> n" by simp
  from processMemoryAccess_total [OF s(2) nd, of "CHR ''r''" 0] obtain h1 where
    h1: "processMemoryAccess n (CHR ''r'') 0 h0 = Inr h1" by auto
  note e1 = processMemoryAccess_evolves [OF h1]
  from f(4) have np0: "\<not> enablePrefetch h0" by simp
  from processMemoryAccess_read_idle [OF np0 h1] obtain val w w' where
    r1: "read n 0 (l1Cache h0) w = Inr (val, l1Cache h1, w')" by blast
  note c1 = read_clean [OF r1 fr(1)]
  from c1(1) fr(2) have st1: "statistics (st (l1Cache h1)) =
      statistics (st (countLookup False (map_statistics (countAccess True) (l1Cache h0))))"
    by auto
  have s1: "statistics (st (l1Cache h1)) =
      \<lparr>numRead = 1, numWrite = 0, numHit = 0, numMiss = 1, totalCycles = 8\<rparr>"
    by (simp add: st1 countLookup_def countMiss_def countAccess_def l1 zeroStatistics_def)
       (simp add: L1_def)
  from hier_evolves_keeps(2,3) [OF e1] s(2) nd have ok1: "hier_ok h1" and nd1: "hier_need h1 \<le> n"
    by simp_all
  from processMemoryAccess_total [OF ok1 nd1, of "CHR ''r''" 0] obtain h2 where
    h2: "processMemoryAccess n (CHR ''r'') 0 h1 = Inr h2" by auto
  from e1 np0 have np1: "\<not> enablePrefetch h1" by (simp add: hier_evolves_def)
  from e1 l1 have p1: "policy (st (l1Cache h1)) = L1"
    by (simp add: hier_evolves_def evolves_def)
  from processMemoryAccess_read_idle [OF np1 h2] obtain val2 w2 w2' where
    r2: "read n 0 (l1Cache h1) w2 = Inr (val2, l1Cache h2, w2')" by blast
  note c2 = read_clean [OF r2 c1(2)]
  from c2(1) c1(3) have st2: "statistics (st (l1Cache h2)) =
      statistics (st (countLookup True (map_statistics (countAccess True) (l1Cache h1))))"
    by auto
  have s2: "statistics (st (l1Cache h2)) =
      \<lparr>numRead = 2, numWrite = 0, numHit = 1, numMiss = 1, totalCycles = 9\<rparr>"
    by (simp add: st2 countLookup_def countHit_def countAccess_def s1 p1)
       (simp add: L1_def)
  have tr: "processTrace n [(CHR ''r'', 0), (CHR ''r'', 0)] h0 = Inr h2"
    by (simp add: h1 h2)
  from h0 inv fr(2) h1 s1 c1(3) h2 tr s2 show ?thesis
    by blast
qed

theorem two_reads_of_zero_witness:
  "(9::nat) \<le> 9 \<and>
   (\<exists>(h0 :: (32 word, 64 word) CacheHierarchy) h2.
      newCacheHierarchy False False False = Inr h0 \<and>
      processTrace 9 [(CHR ''r'', 0), (CHR ''r'', 0)] h0 = Inr h2 \<and>
      statistics (st (l1Cache h2)) =
        \<lparr>numRead = 2, numWrite = 0, numHit = 1, numMiss = 1, totalCycles = 9\<rparr>)"
  using two_reads_of_zero [of 9, where 'n = "32 word" and 'c = "64 word"] by auto

section \<open>The victim cache and what it runs against\<close>










section \<open>Runs of strides\<close>







section \<open>An access with the prefetcher\<close>












end
